theory Spec2Isabelle
  imports Complex_Main "HOL-Library.Log_Nat"
begin

section \<open>JavaScript values used by the manager\<close>

text \<open>
  A JavaScript \<open>number\<close> is an IEEE 754 double: \<open>Num r\<close> is the finite double of value \<open>r\<close>,
  beside \<open>NaN\<close> and the two infinities. The sign of zero is not modelled: the program only
  adds, divides and compares numbers, and the divisor of its one division is the size of a
  map, which is never negative zero.
\<close>

datatype number = Num rat | NaN | PosInfinity | NegInfinity

text \<open>
  The exponent of a positive rational: \<open>floor_log2 r = e\<close> where \<open>2 ^ e \<le> r < 2 ^ (e + 1)\<close>.
\<close>

definition floor_log2 :: "rat \<Rightarrow> int" where
  "floor_log2 r = (if 1 \<le> r then bitlen \<lfloor>r\<rfloor> - 1 else - bitlen (\<lceil>1 / r\<rceil> - 1))"

text \<open>Rounding to the nearest integer, a tie going to the even one.\<close>

definition round_half_even :: "rat \<Rightarrow> int" where
  "round_half_even q =
     (let f = \<lfloor>q\<rfloor>; d = q - of_int f
      in if d < 1 / 2 then f else if 1 / 2 < d then f + 1 else if even f then f else f + 1)"

text \<open>
  The result of an arithmetic operation whose exact value is \<open>r\<close>: the nearest double, a tie
  going to the even significand. A double has 53 significant bits and an exponent of at
  least -1022 (below that the spacing stays that of the subnormal numbers); a result that
  rounds to 2 ^ 1024 or beyond is an infinity.
\<close>

definition to_double :: "rat \<Rightarrow> number" where
  "to_double r =
     (if r = 0 then Num 0
      else let e = max (floor_log2 \<bar>r\<bar>) (- 1022);
               u = 2 powi (e - 52);
               v = of_int (round_half_even (r / u)) * u
           in if 2 powi 1024 \<le> \<bar>v\<bar> then (if 0 < r then PosInfinity else NegInfinity)
              else Num v)"

text \<open>The operator \<open>a + b\<close> on numbers.\<close>

fun js_add :: "number \<Rightarrow> number \<Rightarrow> number" where
  "js_add (Num a) (Num b) = to_double (a + b)"
| "js_add NaN _ = NaN"
| "js_add _ NaN = NaN"
| "js_add PosInfinity NegInfinity = NaN"
| "js_add NegInfinity PosInfinity = NaN"
| "js_add PosInfinity _ = PosInfinity"
| "js_add _ PosInfinity = PosInfinity"
| "js_add NegInfinity _ = NegInfinity"
| "js_add _ NegInfinity = NegInfinity"

text \<open>The operator \<open>a / b\<close> on numbers: a zero divisor gives \<open>NaN\<close> or an infinity, never an error.\<close>

fun js_div :: "number \<Rightarrow> number \<Rightarrow> number" where
  "js_div (Num a) (Num b) =
     (if b = 0 then (if a = 0 then NaN else if 0 < a then PosInfinity else NegInfinity)
      else to_double (a / b))"
| "js_div NaN _ = NaN"
| "js_div _ NaN = NaN"
| "js_div (Num a) PosInfinity = Num 0"
| "js_div (Num a) NegInfinity = Num 0"
| "js_div PosInfinity (Num b) = (if 0 \<le> b then PosInfinity else NegInfinity)"
| "js_div NegInfinity (Num b) = (if 0 \<le> b then NegInfinity else PosInfinity)"
| "js_div _ _ = NaN"

text \<open>The operator \<open>a < b\<close> on numbers: every comparison with \<open>NaN\<close> is false.\<close>

fun js_lt :: "number \<Rightarrow> number \<Rightarrow> bool" where
  "js_lt (Num a) (Num b) = (a < b)"
| "js_lt NaN _ = False"
| "js_lt _ NaN = False"
| "js_lt _ NegInfinity = False"
| "js_lt PosInfinity _ = False"
| "js_lt NegInfinity _ = True"
| "js_lt _ PosInfinity = True"

text \<open>The operator \<open>a === b\<close> on numbers: \<open>NaN\<close> is equal to nothing.\<close>

definition js_strict_eq :: "number \<Rightarrow> number \<Rightarrow> bool" where
  "js_strict_eq a b = (a \<noteq> NaN \<and> a = b)"

text \<open>\<open>!x\<close> for a value of type \<open>number | null\<close>: null, zero and \<open>NaN\<close> are falsy.\<close>

fun falsy_number :: "number option \<Rightarrow> bool" where
  "falsy_number None = True"
| "falsy_number (Some (Num r)) = (r = 0)"
| "falsy_number (Some NaN) = True"
| "falsy_number (Some _) = False"

text \<open>\<open>!x\<close> for a value of type \<open>string | null\<close>: null and the empty string are falsy.\<close>

fun falsy_string :: "string option \<Rightarrow> bool" where
  "falsy_string None = True"
| "falsy_string (Some s) = (s = [])"

text \<open>
  The elements an untyped caller can put into the \<open>shards\<close> array. The TypeScript type is
  \<open>number[]\<close>; the filter in \<open>spawn\<close> exists for callers that bypass it.
\<close>

datatype jsvalue = JNumber number | JString string | JBoolean bool | JNull | JUndefined | JObject

fun typeof :: "jsvalue \<Rightarrow> string" where
  "typeof (JNumber _) = ''number''"
| "typeof (JString _) = ''string''"
| "typeof (JBoolean _) = ''boolean''"
| "typeof JNull = ''object''"
| "typeof JUndefined = ''undefined''"
| "typeof JObject = ''object''"

fun Number_isNaN :: "jsvalue \<Rightarrow> bool" where
  "Number_isNaN (JNumber NaN) = True"
| "Number_isNaN _ = False"

section \<open>Data of the manager\<close>

datatype GatewayStatus = Ready | InvalidSession

text \<open>
  The enum \<open>WebSocketShardStatus\<close> is declared in WebSocketShard.ts; the manager only compares
  a status with the member \<open>Connected\<close>. Every other member is kept by its ordinal.
\<close>

datatype WebSocketShardStatus = Connected | OtherStatus nat

text \<open>The fields of a \<open>WebSocketShard\<close> that the manager reads or passes to its constructor.\<close>

record WebSocketShard =
  shard_id :: number
  shard_totalShards :: "number option"
  shard_gatewayURL :: string
  status :: WebSocketShardStatus
  ping :: number

text \<open>
  \<open>new WebSocketShard(manager, id, totalShards, url)\<close>: the constructor is a parameter of the
  model, since the class is not part of the manager.
\<close>

type_synonym shard_ctor = "number \<Rightarrow> number option \<Rightarrow> string \<Rightarrow> WebSocketShard"

record SessionStartLimit =
  total :: number
  remaining :: number
  reset_after :: number

text \<open>The body of \<open>GET /gateway/bot\<close>; its field \<open>shards\<close> is named \<open>gateway_shards\<close> here.\<close>

record APIGatewayBotData =
  url :: string
  gateway_shards :: number
  session_start_limit :: SessionStartLimit

datatype ShardsOption = Auto | Count number | Ids "jsvalue list"

record WSOptions =
  shards_option :: ShardsOption
  totalShards :: "number option"

datatype error =
    TokenRequired
  | TotalShardsRequired
  | RestError string
  | ConnectError string
  | TypeError
  | RangeError

text \<open>
  Modelled from the spec: the class \<open>AsyncQueue\<close> (package @klasa/async-queue) is not under
  src/. It is the single FIFO that serialises admissions: \<open>wait\<close> joins the tail and hands
  back the promise of the entry in front (an already resolved promise when the queue is
  empty), \<open>shift\<close> removes the head entry and resolves its promise, \<open>remaining\<close> is the
  number of entries. An entry is named by a natural number chosen by the caller of \<open>wait\<close>.
\<close>

record AsyncQueue =
  promises :: "nat list"
  resolved :: "nat set"

definition AsyncQueue_new :: AsyncQueue where
  "AsyncQueue_new = \<lparr>promises = [], resolved = {}\<rparr>"

definition AsyncQueue_wait :: "nat \<Rightarrow> AsyncQueue \<Rightarrow> nat option \<times> AsyncQueue" where
  "AsyncQueue_wait d q =
     (if promises q = [] then None else Some (last (promises q)),
      q\<lparr>promises := promises q @ [d]\<rparr>)"

definition AsyncQueue_shift :: "AsyncQueue \<Rightarrow> AsyncQueue" where
  "AsyncQueue_shift q =
     (case promises q of
        [] \<Rightarrow> q
      | d # ds \<Rightarrow> q\<lparr>promises := ds, resolved := insert d (resolved q)\<rparr>)"

definition AsyncQueue_remaining :: "AsyncQueue \<Rightarrow> nat" where
  "AsyncQueue_remaining q = length (promises q)"

text \<open>
  The \<open>Cache\<close> of shards is a JavaScript \<open>Map\<close>: an association list in insertion order
  with one entry for each key.
\<close>

type_synonym shard_cache = "(number \<times> WebSocketShard) list"

definition Cache_get :: "shard_cache \<Rightarrow> number \<Rightarrow> WebSocketShard option" where
  "Cache_get c k = map_of c k"

fun Cache_set :: "number \<Rightarrow> WebSocketShard \<Rightarrow> shard_cache \<Rightarrow> shard_cache" where
  "Cache_set k v [] = [(k, v)]"
| "Cache_set k v (p # ps) = (if fst p = k then (k, v) # ps else p # Cache_set k v ps)"

definition Cache_delete :: "number \<Rightarrow> shard_cache \<Rightarrow> shard_cache" where
  "Cache_delete k c = filter (\<lambda>p. fst p \<noteq> k) c"

record manager =
  shards :: shard_cache
  options :: WSOptions
  token :: "string option"
  queue :: AsyncQueue
  gatewayInfo :: "APIGatewayBotData option"

section \<open>Constructor, token setter and ping getter\<close>

text \<open>
  The constructor reads \<open>process.env.DISCORD_TOKEN || null\<close>; the environment is a map from
  variable names to values. The options are taken after \<open>mergeDefault\<close>.
\<close>

definition constructor :: "(string \<rightharpoonup> string) \<Rightarrow> WSOptions \<Rightarrow> manager" where
  "constructor env opts =
     \<lparr>shards = [],
      options = opts,
      token = (if falsy_string (env ''DISCORD_TOKEN'') then None else env ''DISCORD_TOKEN''),
      queue = AsyncQueue_new,
      gatewayInfo = None\<rparr>"

definition set_token :: "string \<Rightarrow> manager \<Rightarrow> manager" where
  "set_token t m = m\<lparr>token := Some t\<rparr>"

text \<open>\<open>this.shards.reduce((a, b) => a + b.ping, 0)\<close> and the division by \<open>this.shards.size\<close>.\<close>

definition get_ping :: "manager \<Rightarrow> number" where
  "get_ping m =
     (let sum = foldl (\<lambda>a b. js_add a (ping b)) (Num 0) (map snd (shards m))
      in js_div sum (Num (of_nat (length (shards m)))))"

text \<open>The arithmetic mean as the specification words it, for comparison with \<open>get_ping\<close>.\<close>

definition arithmetic_mean :: "rat list \<Rightarrow> rat" where
  "arithmetic_mean rs = sum_list rs / of_nat (length rs)"

section \<open>spawn\<close>

text \<open>
  Two limits are the engine's own and depend on the memory it has: the length at which it
  refuses to grow an array, and the number of arguments it accepts in one call. Beyond
  either it throws a \<open>RangeError\<close>. The language itself allows no array of more than
  2 ^ 32 - 1 elements.
\<close>

record engine_limits =
  array_capacity :: nat
  max_arguments :: nat

definition array_limit :: "engine_limits \<Rightarrow> nat" where
  "array_limit eng = min (array_capacity eng) 4294967295"

text \<open>
  \<open>for (let i = 0; i < n; i++) shards.push(i)\<close>, with the array so far as accumulator. The
  loop ends when the counter reaches \<open>n\<close>, or with the \<open>RangeError\<close> of a \<open>push\<close> to a full
  array.
\<close>

function push_range :: "engine_limits \<Rightarrow> number \<Rightarrow> number \<Rightarrow> number list \<Rightarrow> error + number list" where
  "push_range eng i n acc =
     (if js_lt i n
      then (if length acc < array_limit eng then push_range eng (js_add i (Num 1)) n (acc @ [i])
            else Inl RangeError)
      else Inr acc)"
  by pat_completeness auto
termination
  by (relation "measure (\<lambda>(eng, i, n, acc). array_limit eng - length acc)") auto

declare push_range.simps [simp del]

text \<open>
  \<open>shards.push(...entries)\<close> on the empty array: the entries are the arguments of one call.
\<close>

definition push_spread :: "engine_limits \<Rightarrow> number list \<Rightarrow> error + number list" where
  "push_spread eng entries =
     (if length entries \<le> max_arguments eng \<and> length entries \<le> array_limit eng
      then Inr entries else Inl RangeError)"

text \<open>
  \<open>this.options.shards.filter(item => typeof item === 'number' && !Number.isNaN(item))\<close>,
  with the numbers that pass taken out of their \<open>jsvalue\<close> wrapper.
\<close>

fun numeric_entries :: "jsvalue list \<Rightarrow> number list" where
  "numeric_entries [] = []"
| "numeric_entries (item # items) =
     (if typeof item = ''number'' \<and> \<not> Number_isNaN item
      then (case item of JNumber n \<Rightarrow> n # numeric_entries items | _ \<Rightarrow> numeric_entries items)
      else numeric_entries items)"

text \<open>What the manager does to the world, in order.\<close>

datatype effect =
    ApiGet
  | QueueShard number
  | Sleep number
  | Connect number
  | DestroyShard number

text \<open>
  The part of \<open>spawn\<close> after the gateway info has arrived: it stores the info and makes the
  list of shards to spawn. The result is the outcome and the manager as it is left.
\<close>

definition spawn_shards ::
  "engine_limits \<Rightarrow> manager \<Rightarrow> APIGatewayBotData \<Rightarrow> (error + number list) \<times> manager" where
  "spawn_shards eng m g =
     (let m1 = m\<lparr>gatewayInfo := Some g\<rparr> in
      case shards_option (options m1) of
        Ids items \<Rightarrow>
          (if falsy_number (totalShards (options m1)) then (Inl TotalShardsRequired, m1)
           else (push_spread eng (numeric_entries items), m1))
      | Auto \<Rightarrow>
          (let m2 = m1\<lparr>options := (options m1)\<lparr>totalShards := Some (gateway_shards g)\<rparr>\<rparr>
           in (push_range eng (Num 0) (gateway_shards g) [], m2))
      | Count n \<Rightarrow>
          (let m2 = m1\<lparr>options := (options m1)\<lparr>totalShards := Some n\<rparr>\<rparr>
           in (push_range eng (Num 0) n [], m2)))"

text \<open>
  \<open>spawn\<close> run alone, with the limits of the engine and the answer of the REST call as
  arguments. The result is the outcome (an error, or the shard ids handed to \<open>queueShard\<close>),
  the manager as it is left, and the effects in order.
\<close>

definition spawn ::
  "engine_limits \<Rightarrow> manager \<Rightarrow> error + APIGatewayBotData \<Rightarrow>
     (error + number list) \<times> manager \<times> effect list" where
  "spawn eng m rest =
     (if falsy_string (token m) then (Inl TokenRequired, m, [])
      else case rest of
        Inl e \<Rightarrow> (Inl e, m, [ApiGet])
      | Inr g \<Rightarrow>
          (case spawn_shards eng m g of
             (Inl e, m') \<Rightarrow> (Inl e, m', [ApiGet])
           | (Inr ids, m') \<Rightarrow> (Inr ids, m', ApiGet # map QueueShard ids)))"

section \<open>The worker's handler for messages of the manager\<close>

text \<open>The messages the manager posts to a worker; \<open>'p\<close> is the type \<open>SendPayload\<close>.\<close>

datatype 'p MasterWorkerMessages =
    Identify
  | Destroy
  | Reconnect
  | FetchSessionData
  | PayloadDispatch 'p

record DestroyOptions =
  resetSession :: bool

text \<open>
  The methods of \<open>WebSocketConnection\<close> the handler calls, as parameters over a connection
  state \<open>'c\<close>. \<open>destroy\<close> takes its options object, or \<open>None\<close> when called with no argument.
\<close>

record ('c, 'p) connection_methods =
  newSession :: "'c \<Rightarrow> 'c"
  destroy :: "DestroyOptions option \<Rightarrow> 'c \<Rightarrow> 'c"
  queueWSPayload :: "'p \<Rightarrow> 'c \<Rightarrow> 'c"

text \<open>\<open>parentPort.on('message', ...)\<close>: a switch with no case for \<open>FetchSessionData\<close>.\<close>

fun on_message :: "('c, 'p) connection_methods \<Rightarrow> 'p MasterWorkerMessages \<Rightarrow> 'c \<Rightarrow> 'c" where
  "on_message conn Identify c = newSession conn c"
| "on_message conn Destroy c = destroy conn (Some \<lparr>resetSession = True\<rparr>) c"
| "on_message conn Reconnect c = destroy conn None c"
| "on_message conn (PayloadDispatch d) c = queueWSPayload conn d c"
| "on_message conn FetchSessionData c = c"

record Session =
  session_id :: string
  seq :: nat

datatype 'p outbound = IdentifyPayload | SendPayload 'p

record 'p connection =
  session :: "Session option"
  send_queue :: "'p outbound list"
  transport_open :: bool
  close_code :: "nat option"
  heartbeat_timer :: bool

text \<open>
  Modelled from the spec: the class \<open>WebSocketConnection\<close> (src/lib/WebSocketConnection.ts) is
  not under src/. Proceeding with a new session discards the session and puts the identify
  payload ahead of the queued payloads. Destroy with a session reset closes the transport with
  code 1000, cancels the heartbeat timer, discards the session and drops the queued payloads;
  without a reset (the default) it closes with code 4000 and preserves the session. A payload
  to send joins the tail of the send queue.
\<close>

definition spec_newSession :: "'p connection \<Rightarrow> 'p connection" where
  "spec_newSession c = c\<lparr>session := None, send_queue := IdentifyPayload # send_queue c\<rparr>"

definition spec_destroy :: "DestroyOptions option \<Rightarrow> 'p connection \<Rightarrow> 'p connection" where
  "spec_destroy opts c =
     (let reset = (case opts of None \<Rightarrow> False | Some opt \<Rightarrow> resetSession opt) in
      if reset
      then c\<lparr>session := None, send_queue := [], transport_open := False,
             close_code := Some 1000, heartbeat_timer := False\<rparr>
      else c\<lparr>transport_open := False, close_code := Some 4000, heartbeat_timer := False\<rparr>)"

definition spec_queueWSPayload :: "'p \<Rightarrow> 'p connection \<Rightarrow> 'p connection" where
  "spec_queueWSPayload d c = c\<lparr>send_queue := send_queue c @ [SendPayload d]\<rparr>"

definition spec_connection :: "('p connection, 'p) connection_methods" where
  "spec_connection =
     \<lparr>newSession = spec_newSession, destroy = spec_destroy, queueWSPayload = spec_queueWSPayload\<rparr>"

section \<open>The manager on the event loop\<close>

text \<open>
  A call of \<open>queueShard\<close> is a coroutine: it runs until its next \<open>await\<close> and is resumed by
  the event loop. The program counter names the \<open>await\<close> it is suspended at:
  \<^item> \<open>AwaitQueue d\<close>: \<open>await this.#queue.wait()\<close>, on the promise of entry \<open>d\<close> (\<open>None\<close>: a
    promise that is already resolved);
  \<^item> \<open>AwaitGateway\<close>: \<open>await this.api.get(...)\<close> in \<open>handleSessionLimit\<close>;
  \<^item> \<open>AwaitReset t\<close>: \<open>await sleep(resetAfter)\<close> in \<open>handleSessionLimit\<close>, due at time \<open>t\<close>;
  \<^item> \<open>AwaitConnect\<close>: \<open>await shard.connect(token)\<close>;
  \<^item> \<open>AwaitCooldown t\<close>: \<open>await sleep(5000)\<close>, due at time \<open>t\<close>.
\<close>

datatype pc =
    AwaitQueue "nat option"
  | AwaitGateway
  | AwaitReset nat
  | AwaitConnect
  | AwaitCooldown nat

record task =
  task_shard :: number
  task_pc :: pc

text \<open>
  The state of the event loop: the manager, the suspended calls of \<open>queueShard\<close> by number,
  the calls of \<open>spawn\<close> waiting for the REST answer, a clock in milliseconds, the effects so
  far with their times, and the errors thrown to callers. Debug messages are left out.
\<close>

record runtime =
  mgr :: manager
  tasks :: "nat \<rightharpoonup> task"
  next_pid :: nat
  pending_spawns :: nat
  now :: nat
  log :: "(nat \<times> effect) list"
  rejected :: "error list"

text \<open>
  \<open>sleep\<close> is a promise on Node's \<open>setTimeout\<close>: the delay is cut to whole milliseconds,
  and is one millisecond when it is below 1, above 2147483647 or not a finite number. A timer
  never fires before its delay is over.
\<close>

fun timer_delay :: "number \<Rightarrow> nat" where
  "timer_delay (Num r) = (if r < 1 \<or> 2147483647 < r then 1 else nat \<lfloor>r\<rfloor>)"
| "timer_delay _ = 1"

definition emit :: "effect \<Rightarrow> runtime \<Rightarrow> runtime" where
  "emit e s = s\<lparr>log := log s @ [(now s, e)]\<rparr>"

definition suspend :: "nat \<Rightarrow> number \<Rightarrow> pc \<Rightarrow> runtime \<Rightarrow> runtime" where
  "suspend p sid c s = s\<lparr>tasks := (tasks s)(p \<mapsto> \<lparr>task_shard = sid, task_pc = c\<rparr>)\<rparr>"

text \<open>\<open>finally { this.#queue.shift() }\<close>, after which call \<open>p\<close> is over.\<close>

definition finally_shift :: "nat \<Rightarrow> runtime \<Rightarrow> runtime" where
  "finally_shift p s =
     s\<lparr>mgr := (mgr s)\<lparr>queue := AsyncQueue_shift (queue (mgr s))\<rparr>,
       tasks := (tasks s)(p := None)\<rparr>"

text \<open>An exception inside the \<open>try\<close> block: the \<open>finally\<close> block runs and the call rejects.\<close>

definition throw :: "error \<Rightarrow> nat \<Rightarrow> runtime \<Rightarrow> runtime" where
  "throw e p s = finally_shift p (s\<lparr>rejected := rejected s @ [e]\<rparr>)"

text \<open>
  A call \<open>this.queueShard(id)\<close> up to its first \<open>await\<close>: \<open>this.#queue.wait()\<close> runs at once
  and the new call is suspended on the promise it returns.
\<close>

definition queueShard :: "number \<Rightarrow> runtime \<Rightarrow> runtime" where
  "queueShard sid s =
     (let p = next_pid s;
          (next, q) = AsyncQueue_wait p (queue (mgr s));
          s1 = emit (QueueShard sid) s
      in suspend p sid (AwaitQueue next)
           (s1\<lparr>mgr := (mgr s1)\<lparr>queue := q\<rparr>, next_pid := Suc p\<rparr>))"

text \<open>
  \<open>getShard\<close>: the shard of the cache or a new one, stored under its id. Reading
  \<open>this.#gatewayInfo.url\<close> throws while no gateway info has been fetched.
\<close>

definition getShard :: "shard_ctor \<Rightarrow> number \<Rightarrow> manager \<Rightarrow> error + WebSocketShard \<times> manager" where
  "getShard new sid m =
     (case Cache_get (shards m) sid of
        Some sh \<Rightarrow> Inr (sh, m\<lparr>shards := Cache_set sid sh (shards m)\<rparr>)
      | None \<Rightarrow>
          (case gatewayInfo m of
             None \<Rightarrow> Inl TypeError
           | Some g \<Rightarrow>
               (let sh = new sid (totalShards (options m)) (url g)
                in Inr (sh, m\<lparr>shards := Cache_set sid sh (shards m)\<rparr>))))"

text \<open>\<open>queueShard\<close> from the granted queue slot to the REST call of \<open>handleSessionLimit\<close>.\<close>

definition queueShard_granted :: "shard_ctor \<Rightarrow> nat \<Rightarrow> number \<Rightarrow> runtime \<Rightarrow> runtime" where
  "queueShard_granted new p sid s =
     (case getShard new sid (mgr s) of
        Inl e \<Rightarrow> throw e p s
      | Inr (sh, m') \<Rightarrow>
          (let s1 = s\<lparr>mgr := m'\<rparr> in
           if status sh = Connected then finally_shift p s1
           else suspend p sid AwaitGateway (emit ApiGet s1)))"

text \<open>\<open>const status = await shard.connect(this.#token!)\<close>: the call is made.\<close>

definition call_connect :: "nat \<Rightarrow> number \<Rightarrow> runtime \<Rightarrow> runtime" where
  "call_connect p sid s = suspend p sid AwaitConnect (emit (Connect sid) s)"

text \<open>
  \<open>handleSessionLimit\<close> from the answer of the REST call on, and then \<open>queueShard\<close> up to the
  call of \<open>shard.connect\<close> when there is nothing to wait for.
\<close>

definition handleSessionLimit :: "nat \<Rightarrow> number \<Rightarrow> error + APIGatewayBotData \<Rightarrow> runtime \<Rightarrow> runtime" where
  "handleSessionLimit p sid r s =
     (case r of
        Inl e \<Rightarrow> throw e p s
      | Inr g \<Rightarrow>
          (let s1 = s\<lparr>mgr := (mgr s)\<lparr>gatewayInfo := Some g\<rparr>\<rparr>;
               resetAfter = reset_after (session_start_limit g)
           in if js_strict_eq (remaining (session_start_limit g)) (Num 0)
              then suspend p sid (AwaitReset (now s1 + timer_delay resetAfter))
                     (emit (Sleep resetAfter) s1)
              else call_connect p sid s1))"

text \<open>\<open>queueShard\<close> from the answer of \<open>shard.connect\<close> on.\<close>

definition queueShard_connected :: "nat \<Rightarrow> number \<Rightarrow> error + GatewayStatus \<Rightarrow> runtime \<Rightarrow> runtime" where
  "queueShard_connected p sid r s =
     (case r of
        Inl e \<Rightarrow> throw e p s
      | Inr st \<Rightarrow>
          (let s1 = (if st = InvalidSession then queueShard sid s else s) in
           if 1 < AsyncQueue_remaining (queue (mgr s1))
           then suspend p sid (AwaitCooldown (now s1 + timer_delay (Num 5000)))
                  (emit (Sleep (Num 5000)) s1)
           else finally_shift p s1))"

text \<open>A timer of call \<open>p\<close> fires: after the reset wait comes the connect, after the cooldown the end.\<close>

definition timer_fired :: "nat \<Rightarrow> number \<Rightarrow> pc \<Rightarrow> runtime \<Rightarrow> runtime option" where
  "timer_fired p sid c s =
     (case c of
        AwaitReset t \<Rightarrow> if t \<le> now s then Some (call_connect p sid s) else None
      | AwaitCooldown t \<Rightarrow> if t \<le> now s then Some (finally_shift p s) else None
      | _ \<Rightarrow> None)"

text \<open>
  \<open>destroy()\<close> of the manager: \<open>shard.destroy()\<close> for every shard of the cache, in its order.
  What that does to a shard is the shard's own business and is reported by the shard.
\<close>

definition destroy_shards :: "runtime \<Rightarrow> runtime" where
  "destroy_shards s = foldl (\<lambda>s' sid. emit (DestroyShard sid) s') s (map fst (shards (mgr s)))"

text \<open>A shard changes its own status or ping sample.\<close>

definition shard_update :: "number \<Rightarrow> (WebSocketShard \<Rightarrow> WebSocketShard) \<Rightarrow> manager \<Rightarrow> manager" where
  "shard_update sid f m =
     (case Cache_get (shards m) sid of
        None \<Rightarrow> m
      | Some sh \<Rightarrow> m\<lparr>shards := Cache_set sid (f sh) (shards m)\<rparr>)"

text \<open>
  What can happen next: time passes, a caller uses the public interface, a shard reports, or
  the event loop resumes a suspended call with the answer it waited for. The REST answer to
  \<open>spawn\<close> comes with the limits the engine has at that moment.
\<close>

datatype event =
    Tick nat
  | SetToken string
  | SpawnCall
  | SpawnFetched "error + APIGatewayBotData" engine_limits
  | ScheduleIdentify number
  | ScheduleShardRestart number
  | DestroyCall
  | ShardStatus number WebSocketShardStatus
  | ShardPing number number
  | QueueGranted nat
  | GatewayFetched nat "error + APIGatewayBotData"
  | TimerFired nat
  | ConnectSettled nat "error + GatewayStatus"

text \<open>One step of the event loop; \<open>None\<close> when the event cannot happen in the state.\<close>

fun step :: "shard_ctor \<Rightarrow> event \<Rightarrow> runtime \<Rightarrow> runtime option" where
  "step new (Tick d) s = Some (s\<lparr>now := now s + d\<rparr>)"
| "step new (SetToken t) s = Some (s\<lparr>mgr := set_token t (mgr s)\<rparr>)"
| "step new SpawnCall s =
     (if falsy_string (token (mgr s)) then Some (s\<lparr>rejected := rejected s @ [TokenRequired]\<rparr>)
      else Some ((emit ApiGet s)\<lparr>pending_spawns := Suc (pending_spawns s)\<rparr>))"
| "step new (SpawnFetched r eng) s =
     (if pending_spawns s = 0 then None
      else let s0 = s\<lparr>pending_spawns := pending_spawns s - 1\<rparr> in
        case r of
          Inl e \<Rightarrow> Some (s0\<lparr>rejected := rejected s0 @ [e]\<rparr>)
        | Inr g \<Rightarrow>
            (case spawn_shards eng (mgr s0) g of
               (Inl e, m') \<Rightarrow> Some (s0\<lparr>mgr := m', rejected := rejected s0 @ [e]\<rparr>)
             | (Inr ids, m') \<Rightarrow> Some (foldl (\<lambda>s' sid. queueShard sid s') (s0\<lparr>mgr := m'\<rparr>) ids)))"
| "step new (ScheduleIdentify sid) s = Some (queueShard sid s)"
| "step new (ScheduleShardRestart sid) s =
     Some (queueShard sid (s\<lparr>mgr := (mgr s)\<lparr>shards := Cache_delete sid (shards (mgr s))\<rparr>\<rparr>))"
| "step new DestroyCall s = Some (destroy_shards s)"
| "step new (ShardStatus sid st) s =
     Some (s\<lparr>mgr := shard_update sid (\<lambda>sh. sh\<lparr>status := st\<rparr>) (mgr s)\<rparr>)"
| "step new (ShardPing sid n) s =
     Some (s\<lparr>mgr := shard_update sid (\<lambda>sh. sh\<lparr>ping := n\<rparr>) (mgr s)\<rparr>)"
| "step new (QueueGranted p) s =
     (case tasks s p of
        None \<Rightarrow> None
      | Some t \<Rightarrow>
          (case task_pc t of
             AwaitQueue None \<Rightarrow> Some (queueShard_granted new p (task_shard t) s)
           | AwaitQueue (Some d) \<Rightarrow>
               if d \<in> resolved (queue (mgr s))
               then Some (queueShard_granted new p (task_shard t) s) else None
           | _ \<Rightarrow> None))"
| "step new (GatewayFetched p r) s =
     (case tasks s p of
        None \<Rightarrow> None
      | Some t \<Rightarrow>
          (case task_pc t of
             AwaitGateway \<Rightarrow> Some (handleSessionLimit p (task_shard t) r s)
           | _ \<Rightarrow> None))"
| "step new (TimerFired p) s =
     (case tasks s p of
        None \<Rightarrow> None
      | Some t \<Rightarrow> timer_fired p (task_shard t) (task_pc t) s)"
| "step new (ConnectSettled p r) s =
     (case tasks s p of
        None \<Rightarrow> None
      | Some t \<Rightarrow>
          (case task_pc t of
             AwaitConnect \<Rightarrow> Some (queueShard_connected p (task_shard t) r s)
           | _ \<Rightarrow> None))"

fun run :: "shard_ctor \<Rightarrow> event list \<Rightarrow> runtime \<Rightarrow> runtime option" where
  "run new [] s = Some s"
| "run new (e # es) s = (case step new e s of None \<Rightarrow> None | Some s' \<Rightarrow> run new es s')"

text \<open>The event loop around a manager that has just been constructed.\<close>

definition boot :: "(string \<rightharpoonup> string) \<Rightarrow> WSOptions \<Rightarrow> runtime" where
  "boot env opts =
     \<lparr>mgr = constructor env opts, tasks = Map.empty, next_pid = 0, pending_spawns = 0,
      now = 0, log = [], rejected = []\<rparr>"

text \<open>
  A call holds the queue slot from the moment its wait on the queue is over until its
  \<open>finally\<close> block has run; it has an identify attempt in flight while it awaits
  \<open>shard.connect\<close>.
\<close>

fun holds_slot :: "pc \<Rightarrow> bool" where
  "holds_slot (AwaitQueue _) = False"
| "holds_slot _ = True"

definition in_slot :: "runtime \<Rightarrow> nat \<Rightarrow> bool" where
  "in_slot s p = (case tasks s p of None \<Rightarrow> False | Some t \<Rightarrow> holds_slot (task_pc t))"

definition connecting :: "runtime \<Rightarrow> nat \<Rightarrow> bool" where
  "connecting s p = (case tasks s p of None \<Rightarrow> False | Some t \<Rightarrow> task_pc t = AwaitConnect)"

text \<open>The times of the identify attempts, and whether any two are at least 5 seconds apart.\<close>

fun connect_times :: "(nat \<times> effect) list \<Rightarrow> nat list" where
  "connect_times [] = []"
| "connect_times ((t, Connect _) # l) = t # connect_times l"
| "connect_times (_ # l) = connect_times l"

fun spaced :: "nat list \<Rightarrow> bool" where
  "spaced [] = True"
| "spaced (t # ts) = (list_all (\<lambda>u. t + 5000 \<le> u) ts \<and> spaced ts)"

section \<open>The shape of the admission queue\<close>

text \<open>
  The calls behind the head of the queue each wait on the promise of the entry in front of
  them; \<open>waits T prev ps\<close> says so for the entries \<open>ps\<close> that follow entry \<open>prev\<close>.
\<close>

fun waits :: "(nat \<rightharpoonup> task) \<Rightarrow> nat \<Rightarrow> nat list \<Rightarrow> bool" where
  "waits T prev [] = True"
| "waits T prev (p # ps) =
     ((case T p of None \<Rightarrow> False | Some t \<Rightarrow> task_pc t = AwaitQueue (Some prev)) \<and> waits T p ps)"

fun pc_unblocked :: "nat set \<Rightarrow> pc \<Rightarrow> bool" where
  "pc_unblocked R (AwaitQueue (Some d)) = (d \<in> R)"
| "pc_unblocked R _ = True"

definition head_ok :: "(nat \<rightharpoonup> task) \<Rightarrow> nat set \<Rightarrow> nat \<Rightarrow> bool" where
  "head_ok T R h = (case T h of None \<Rightarrow> False | Some t \<Rightarrow> pc_unblocked R (task_pc t))"

definition queue_inv :: "runtime \<Rightarrow> bool" where
  "queue_inv s =
     (let q = promises (queue (mgr s)); R = resolved (queue (mgr s)); T = tasks s in
      distinct q \<and> dom T = set q \<and> (\<forall>d\<in>set q. d < next_pid s) \<and>
      (\<forall>d\<in>R. d < next_pid s) \<and> set q \<inter> R = {} \<and>
      (case q of [] \<Rightarrow> True | h # ps \<Rightarrow> head_ok T R h \<and> waits T h ps))"

text \<open>A call that the event loop can resume or that already holds the slot.\<close>

definition unblocked :: "runtime \<Rightarrow> task \<Rightarrow> bool" where
  "unblocked s t = pc_unblocked (resolved (queue (mgr s))) (task_pc t)"

section \<open>Worked examples\<close>

text \<open>
  A gateway answer, a shard constructor, an environment, the limits of an engine and a run
  used in the examples.
\<close>

definition sample_gateway :: "number \<Rightarrow> number \<Rightarrow> APIGatewayBotData" where
  "sample_gateway rem ra =
     \<lparr>url = ''wss://gateway.discord.gg'', gateway_shards = Num 2,
      session_start_limit = \<lparr>total = Num 1000, remaining = rem, reset_after = ra\<rparr>\<rparr>"

definition sample_shard :: shard_ctor where
  "sample_shard sid tot u =
     \<lparr>shard_id = sid, shard_totalShards = tot, shard_gatewayURL = u,
      status = OtherStatus 0, ping = Num 0\<rparr>"

definition sample_env :: "string \<rightharpoonup> string" where
  "sample_env = [''DISCORD_TOKEN'' \<mapsto> ''token'']"

definition sample_engine :: engine_limits where
  "sample_engine = \<lparr>array_capacity = 112813858, max_arguments = 65535\<rparr>"

definition sample_run :: "event list" where
  "sample_run =
     [SpawnCall, SpawnFetched (Inr (sample_gateway (Num 1000) (Num 0))) sample_engine,
      QueueGranted 0, GatewayFetched 0 (Inr (sample_gateway (Num 1000) (Num 0)))]"

text \<open>
  A run in which shard 0 is restarted 100 ms after its first identify, while nothing else
  waits in the queue.
\<close>

definition late_restart_run :: "event list" where
  "late_restart_run =
     [SpawnCall, SpawnFetched (Inr (sample_gateway (Num 1000) (Num 0))) sample_engine,
      QueueGranted 0, GatewayFetched 0 (Inr (sample_gateway (Num 1000) (Num 0))),
      Tick 50, ConnectSettled 0 (Inr Ready),
      Tick 50, ScheduleShardRestart (Num 0),
      QueueGranted 1, GatewayFetched 1 (Inr (sample_gateway (Num 1000) (Num 0)))]"

text \<open>
  Two shards are queued and the first awaits the answer of its connect; then the answer is
  \<open>Ready\<close> and 4999 ms pass, with another call of \<open>scheduleIdentify\<close> in between.
\<close>

definition cooldown_example :: runtime where
  "cooldown_example =
     the (run sample_shard (sample_run @ [Tick 50])
            (boot sample_env \<lparr>shards_option = Auto, totalShards = None\<rparr>))"

definition cooldown_later :: runtime where
  "cooldown_later =
     the (run sample_shard
            [ConnectSettled 0 (Inr Ready), Tick 4000, ScheduleIdentify (Num 0), Tick 999]
            cooldown_example)"

text \<open>
  Shard 0 becomes connected while a second call for it waits in the queue; the state is the
  one in which that second call is next.
\<close>

definition connected_example :: runtime where
  "connected_example =
     the (run sample_shard
            [SpawnCall, SpawnFetched (Inr (sample_gateway (Num 1000) (Num 0))) sample_engine,
             QueueGranted 0, GatewayFetched 0 (Inr (sample_gateway (Num 1000) (Num 0))),
             ShardStatus (Num 0) Connected, ScheduleIdentify (Num 0),
             ConnectSettled 0 (Inr Ready), Tick 5000, TimerFired 0]
            (boot sample_env \<lparr>shards_option = Count (Num 1), totalShards = None\<rparr>))"

text \<open>The state in which shard 0 awaits its connect and shard 1 waits, and its successor
  when the connect is answered with an invalid session.\<close>

definition invalid_session_example :: runtime where
  "invalid_session_example =
     the (run sample_shard sample_run
            (boot sample_env \<lparr>shards_option = Auto, totalShards = None\<rparr>))"

definition invalid_session_after :: runtime where
  "invalid_session_after =
     the (step sample_shard (ConnectSettled 0 (Inr InvalidSession)) invalid_session_example)"




section \<open>The queue keeps its shape\<close>

lemma waits_frame:
  "(\<And>x. x \<in> set ps \<Longrightarrow> T' x = T x) \<Longrightarrow> waits T' prev ps = waits T prev ps"
  by (induction ps arbitrary: prev) auto

lemma waits_snoc:
  "waits T prev (ps @ [n]) =
     (waits T prev ps \<and>
      (case T n of None \<Rightarrow> False | Some t \<Rightarrow> task_pc t = AwaitQueue (Some (last (prev # ps)))))"
proof (induction ps arbitrary: prev)
  case Nil
  show ?case by (simp split: option.splits)
next
  case (Cons p ps)
  have "last (prev # p # ps) = last (p # ps)" by simp
  with Cons.IH [of p] show ?case by (simp del: last.simps split: option.splits)
qed

lemma waits_mem:
  "waits T prev ps \<Longrightarrow> x \<in> set ps \<Longrightarrow>
   \<exists>t d. T x = Some t \<and> task_pc t = AwaitQueue (Some d) \<and> d \<in> set (prev # ps)"
proof (induction ps arbitrary: prev)
  case Nil
  then show ?case by simp
next
  case (Cons p ps)
  show ?case
  proof (cases "x = p")
    case True
    with Cons.prems(1) show ?thesis by (auto split: option.splits)
  next
    case False
    with Cons.prems have "waits T p ps" and "x \<in> set ps" by auto
    from Cons.IH [OF this] show ?thesis by auto
  qed
qed

lemma unblocked_is_head:
  assumes inv: "queue_inv s" and t: "tasks s p = Some t" and u: "unblocked s t"
  shows "\<exists>ps. promises (queue (mgr s)) = p # ps"
proof -
  let ?q = "promises (queue (mgr s))"
  from inv t have mem: "p \<in> set ?q" by (auto simp: queue_inv_def Let_def)
  then obtain h ps where q: "?q = h # ps" by (cases ?q) auto
  show ?thesis
  proof (cases "p = h")
    case True
    with q show ?thesis by simp
  next
    case False
    with mem q have "p \<in> set ps" by simp
    moreover from inv q have "waits (tasks s) h ps" by (simp add: queue_inv_def Let_def)
    ultimately obtain t' d where "tasks s p = Some t'" "task_pc t' = AwaitQueue (Some d)"
      "d \<in> set (h # ps)" using waits_mem by blast
    with t have pc: "task_pc t = AwaitQueue (Some d)" and d: "d \<in> set ?q" using q by auto
    from inv d have "d \<notin> resolved (queue (mgr s))" by (auto simp: queue_inv_def Let_def)
    with pc u show ?thesis by (simp add: unblocked_def)
  qed
qed


lemma holds_slot_unblocked: "holds_slot (task_pc t) \<Longrightarrow> unblocked s t"
  by (cases "task_pc t") (simp_all add: unblocked_def)

lemma inv_append:
  assumes inv: "queue_inv s"
    and q': "promises (queue (mgr s')) = promises (queue (mgr s)) @ [next_pid s]"
    and R': "resolved (queue (mgr s')) = resolved (queue (mgr s))"
    and T': "tasks s' = (tasks s)(next_pid s \<mapsto> t)"
    and pc: "task_pc t = AwaitQueue (if promises (queue (mgr s)) = [] then None
                                     else Some (last (promises (queue (mgr s)))))"
    and n': "next_pid s' = Suc (next_pid s)"
  shows "queue_inv s'"
proof -
  let ?q = "promises (queue (mgr s))" and ?R = "resolved (queue (mgr s))"
  let ?n = "next_pid s"
  from inv have d: "distinct ?q" and dom: "dom (tasks s) = set ?q"
    and lt: "\<forall>d\<in>set ?q. d < ?n" and ltR: "\<forall>d\<in>?R. d < ?n" and disj: "set ?q \<inter> ?R = {}"
    by (simp_all add: queue_inv_def Let_def)
  from lt ltR have fresh: "?n \<notin> set ?q" "?n \<notin> ?R" by auto
  have 1: "distinct (?q @ [?n])" using d fresh by simp
  have 2: "dom (tasks s') = set (?q @ [?n])" using dom T' by auto
  have 3: "\<forall>d\<in>set (?q @ [?n]). d < Suc ?n" using lt by (auto simp: less_Suc_eq)
  have b3: "\<forall>d\<in>?R. d < Suc ?n" using ltR by (auto simp: less_Suc_eq)
  have 4: "set (?q @ [?n]) \<inter> ?R = {}" using disj fresh by auto
  have 5: "case ?q @ [?n] of [] \<Rightarrow> True
           | h # ps \<Rightarrow> head_ok (tasks s') ?R h \<and> waits (tasks s') h ps"
  proof (cases ?q)
    case Nil
    with pc T' show ?thesis by (simp add: head_ok_def)
  next
    case (Cons h ps)
    with fresh have hn: "h \<noteq> ?n" and psn: "?n \<notin> set ps" by auto
    from inv Cons have ho: "head_ok (tasks s) ?R h" and w: "waits (tasks s) h ps"
      by (simp_all add: queue_inv_def Let_def)
    from hn T' ho have ho': "head_ok (tasks s') ?R h" by (simp add: head_ok_def)
    from psn T' have "waits (tasks s') h ps = waits (tasks s) h ps"
      by (intro waits_frame) auto
    with w have w': "waits (tasks s') h ps" by simp
    from pc Cons have "task_pc t = AwaitQueue (Some (last (h # ps)))" by simp
    with T' w' have "waits (tasks s') h (ps @ [?n])" by (simp add: waits_snoc del: last.simps)
    with ho' Cons show ?thesis by simp
  qed
  from 1 2 3 b3 4 5 show ?thesis
    unfolding queue_inv_def Let_def q' R' n' by blast
qed

lemma inv_shift:
  assumes inv: "queue_inv s" and t: "tasks s p = Some t" and u: "unblocked s t"
    and q': "queue (mgr s') = AsyncQueue_shift (queue (mgr s))"
    and T': "tasks s' = (tasks s)(p := None)"
    and n': "next_pid s' = next_pid s"
  shows "queue_inv s'"
proof -
  let ?q = "promises (queue (mgr s))" and ?R = "resolved (queue (mgr s))"
  from unblocked_is_head [OF inv t u] obtain ps where q: "?q = p # ps" by blast
  from inv have d: "distinct ?q" and dom: "dom (tasks s) = set ?q"
    and lt: "\<forall>d\<in>set ?q. d < next_pid s" and ltR: "\<forall>d\<in>?R. d < next_pid s" and disj: "set ?q \<inter> ?R = {}"
    by (simp_all add: queue_inv_def Let_def)
  from inv q have w: "waits (tasks s) p ps" by (simp add: queue_inv_def Let_def)
  from q q' have pq: "promises (queue (mgr s')) = ps"
    and pr: "resolved (queue (mgr s')) = insert p ?R"
    by (simp_all add: AsyncQueue_shift_def)
  from d q have pn: "p \<notin> set ps" and dps: "distinct ps" by auto
  have 2: "dom (tasks s') = set ps" using dom q T' pn by auto
  have 3: "\<forall>d\<in>set ps. d < next_pid s" using lt q by auto
  have b3: "\<forall>d\<in>insert p ?R. d < next_pid s" using lt ltR q by auto
  have 4: "set ps \<inter> insert p ?R = {}" using disj q pn by auto
  have 5: "case ps of [] \<Rightarrow> True
           | h # ps' \<Rightarrow> head_ok (tasks s') (insert p ?R) h \<and> waits (tasks s') h ps'"
  proof (cases ps)
    case Nil
    then show ?thesis by simp
  next
    case (Cons h ps')
    with pn have hp: "h \<noteq> p" and pn': "p \<notin> set ps'" by auto
    from w Cons obtain th where th: "tasks s h = Some th" "task_pc th = AwaitQueue (Some p)"
      and w': "waits (tasks s) h ps'" by (auto split: option.splits)
    from th hp T' have "head_ok (tasks s') (insert p ?R) h" by (simp add: head_ok_def)
    moreover from pn' T' have "waits (tasks s') h ps' = waits (tasks s) h ps'"
      by (intro waits_frame) auto
    ultimately show ?thesis using w' Cons by simp
  qed
  from dps 2 3 b3 4 5 show ?thesis
    unfolding queue_inv_def Let_def pq pr n' by blast
qed

lemma inv_suspend:
  assumes inv: "queue_inv s" and t: "tasks s p = Some t" and u: "unblocked s t"
    and q': "queue (mgr s') = queue (mgr s)"
    and T': "tasks s' = (tasks s)(p \<mapsto> t')"
    and h: "holds_slot (task_pc t')"
    and n': "next_pid s' = next_pid s"
  shows "queue_inv s'"
proof -
  let ?q = "promises (queue (mgr s))" and ?R = "resolved (queue (mgr s))"
  from unblocked_is_head [OF inv t u] obtain ps where q: "?q = p # ps" by blast
  from inv have d: "distinct ?q" and dom: "dom (tasks s) = set ?q"
    and lt: "\<forall>d\<in>set ?q. d < next_pid s" and ltR: "\<forall>d\<in>?R. d < next_pid s" and disj: "set ?q \<inter> ?R = {}"
    by (simp_all add: queue_inv_def Let_def)
  from inv q have w: "waits (tasks s) p ps" by (simp add: queue_inv_def Let_def)
  from d q have pn: "p \<notin> set ps" by auto
  have 2: "dom (tasks s') = set ?q" using dom q T' by auto
  from h T' have ho: "head_ok (tasks s') ?R p"
    by (cases "task_pc t'") (simp_all add: head_ok_def)
  from pn T' have "waits (tasks s') p ps = waits (tasks s) p ps"
    by (intro waits_frame) auto
  with w ho q have 5: "case ?q of [] \<Rightarrow> True
           | h # ps' \<Rightarrow> head_ok (tasks s') ?R h \<and> waits (tasks s') h ps'" by simp
  from d 2 lt ltR disj 5 show ?thesis
    unfolding queue_inv_def Let_def q' n' by blast
qed

lemma inv_frame:
  assumes "queue (mgr s') = queue (mgr s)" and "tasks s' = tasks s" and "next_pid s' = next_pid s"
  shows "queue_inv s' = queue_inv s"
  using assms by (simp add: queue_inv_def)


lemma queueShard_proj:
  "promises (queue (mgr (queueShard sid s))) = promises (queue (mgr s)) @ [next_pid s]"
  "resolved (queue (mgr (queueShard sid s))) = resolved (queue (mgr s))"
  "tasks (queueShard sid s) =
     (tasks s)(next_pid s \<mapsto>
        \<lparr>task_shard = sid,
         task_pc = AwaitQueue (if promises (queue (mgr s)) = [] then None
                               else Some (last (promises (queue (mgr s)))))\<rparr>)"
  "next_pid (queueShard sid s) = Suc (next_pid s)"
  by (simp_all add: queueShard_def AsyncQueue_wait_def suspend_def emit_def Let_def)

lemma inv_queueShard: "queue_inv s \<Longrightarrow> queue_inv (queueShard sid s)"
  by (rule inv_append [where s' = "queueShard sid s" and s = s
        and t = "\<lparr>task_shard = sid,
         task_pc = AwaitQueue (if promises (queue (mgr s)) = [] then None
                               else Some (last (promises (queue (mgr s)))))\<rparr>"])
     (simp_all add: queueShard_proj)

lemma inv_foldl_queueShard:
  "queue_inv s \<Longrightarrow> queue_inv (foldl (\<lambda>s' sid. queueShard sid s') s ids)"
  by (induction ids arbitrary: s) (simp_all add: inv_queueShard)

lemma inv_finally_shift:
  "queue_inv s \<Longrightarrow> tasks s p = Some t \<Longrightarrow> unblocked s t \<Longrightarrow> queue_inv (finally_shift p s)"
  by (rule inv_shift [where s' = "finally_shift p s"]) (simp_all add: finally_shift_def)

lemma inv_throw:
  "queue_inv s \<Longrightarrow> tasks s p = Some t \<Longrightarrow> unblocked s t \<Longrightarrow> queue_inv (throw e p s)"
  by (rule inv_shift [where s' = "throw e p s" and s = s])
     (simp_all add: throw_def finally_shift_def)

lemma inv_suspend_emit:
  "queue_inv s \<Longrightarrow> tasks s p = Some t \<Longrightarrow> unblocked s t \<Longrightarrow> holds_slot c \<Longrightarrow>
   queue_inv (suspend p sid c (emit e s))"
  by (rule inv_suspend [where s' = "suspend p sid c (emit e s)" and s = s
        and t' = "\<lparr>task_shard = sid, task_pc = c\<rparr>"])
     (simp_all add: suspend_def emit_def)

lemma inv_call_connect:
  "queue_inv s \<Longrightarrow> tasks s p = Some t \<Longrightarrow> unblocked s t \<Longrightarrow> queue_inv (call_connect p sid s)"
  unfolding call_connect_def by (rule inv_suspend_emit) simp_all

lemma getShard_queue: "getShard new sid m = Inr (sh, m') \<Longrightarrow> queue m' = queue m"
  by (auto simp: getShard_def Let_def split: option.splits)

lemma spawn_shards_queue: "spawn_shards eng m g = (r, m') \<Longrightarrow> queue m' = queue m"
  by (auto simp: spawn_shards_def Let_def split: ShardsOption.splits if_splits)

lemma inv_mgr:
  "queue m' = queue (mgr s) \<Longrightarrow> queue_inv (s\<lparr>mgr := m'\<rparr>) = queue_inv s"
  by (rule inv_frame) simp_all

lemma unblocked_mgr:
  "queue m' = queue (mgr s) \<Longrightarrow> unblocked (s\<lparr>mgr := m'\<rparr>) t = unblocked s t"
  by (simp add: unblocked_def)

lemma inv_granted:
  assumes inv: "queue_inv s" and t: "tasks s p = Some t" and u: "unblocked s t"
  shows "queue_inv (queueShard_granted new p sid s)"
proof (cases "getShard new sid (mgr s)")
  case (Inl e)
  with inv_throw [OF inv t u] show ?thesis by (simp add: queueShard_granted_def)
next
  case (Inr r)
  obtain sh m' where r: "r = (sh, m')" by (cases r)
  with Inr have q: "queue m' = queue (mgr s)" by (auto dest: getShard_queue)
  let ?s1 = "s\<lparr>mgr := m'\<rparr>"
  from q inv have inv1: "queue_inv ?s1" by (simp add: inv_mgr)
  from t have t1: "tasks ?s1 p = Some t" by simp
  from q u have u1: "unblocked ?s1 t" by (simp add: unblocked_mgr)
  from inv_finally_shift [OF inv1 t1 u1] inv_suspend_emit [OF inv1 t1 u1, of AwaitGateway sid ApiGet]
  show ?thesis using Inr r by (simp add: queueShard_granted_def Let_def)
qed

lemma inv_handleSessionLimit:
  assumes inv: "queue_inv s" and t: "tasks s p = Some t" and u: "unblocked s t"
  shows "queue_inv (handleSessionLimit p sid r s)"
proof (cases r)
  case (Inl e)
  with inv_throw [OF inv t u] show ?thesis by (simp add: handleSessionLimit_def)
next
  case (Inr g)
  let ?s1 = "s\<lparr>mgr := (mgr s)\<lparr>gatewayInfo := Some g\<rparr>\<rparr>"
  from inv have inv1: "queue_inv ?s1" by (simp add: inv_mgr)
  from t have t1: "tasks ?s1 p = Some t" by simp
  from u have u1: "unblocked ?s1 t" by (simp add: unblocked_mgr)
  from inv_call_connect [OF inv1 t1 u1]
    inv_suspend_emit [OF inv1 t1 u1, of "AwaitReset (now ?s1 + timer_delay (reset_after (session_start_limit g)))"]
  show ?thesis using Inr by (simp add: handleSessionLimit_def Let_def)
qed

lemma task_not_fresh: "queue_inv s \<Longrightarrow> tasks s p = Some t \<Longrightarrow> p \<noteq> next_pid s"
  by (auto simp: queue_inv_def Let_def)

lemma inv_connected:
  assumes inv: "queue_inv s" and t: "tasks s p = Some t" and h: "holds_slot (task_pc t)"
  shows "queue_inv (queueShard_connected p sid r s)"
proof (cases r)
  case (Inl e)
  with inv_throw [OF inv t holds_slot_unblocked [OF h]] show ?thesis
    by (simp add: queueShard_connected_def)
next
  case (Inr st)
  let ?s1 = "if st = InvalidSession then queueShard sid s else s"
  from inv have inv1: "queue_inv ?s1" by (simp add: inv_queueShard)
  from task_not_fresh [OF inv t] t have t1: "tasks ?s1 p = Some t"
    by (simp add: queueShard_proj)
  have u1: "unblocked ?s1 t" by (rule holds_slot_unblocked [OF h])
  from inv_finally_shift [OF inv1 t1 u1]
    inv_suspend_emit [OF inv1 t1 u1, of "AwaitCooldown (now ?s1 + timer_delay (Num 5000))"]
  show ?thesis using Inr by (simp add: queueShard_connected_def Let_def)
qed

lemma inv_timer_fired:
  assumes inv: "queue_inv s" and t: "tasks s p = Some t" and c: "task_pc t = c"
    and f: "timer_fired p sid c s = Some s'"
  shows "queue_inv s'"
proof -
  from f have h: "holds_slot c" by (cases c) (simp_all add: timer_fired_def)
  with c have u: "unblocked s t" by (simp add: holds_slot_unblocked)
  from f inv_call_connect [OF inv t u, of sid] inv_finally_shift [OF inv t u]
  show ?thesis by (cases c) (auto simp: timer_fired_def split: if_splits)
qed

lemma foldl_emit_frame:
  "mgr (foldl (\<lambda>s' x. emit (f x) s') s xs) = mgr s \<and>
   tasks (foldl (\<lambda>s' x. emit (f x) s') s xs) = tasks s \<and>
   next_pid (foldl (\<lambda>s' x. emit (f x) s') s xs) = next_pid s \<and>
   now (foldl (\<lambda>s' x. emit (f x) s') s xs) = now s"
  by (induction xs arbitrary: s) (simp_all add: emit_def)

lemma inv_destroy_shards: "queue_inv (destroy_shards s) = queue_inv s"
  unfolding destroy_shards_def by (rule inv_frame) (simp_all add: foldl_emit_frame)

lemma inv_step:
  assumes inv: "queue_inv s" and st: "step new e s = Some s'"
  shows "queue_inv s'"
proof (cases e)
  case (Tick d)
  with st have "queue_inv s' = queue_inv s" by (intro inv_frame) auto
  with inv show ?thesis by simp
next
  case (SetToken tk)
  with st inv show ?thesis by (auto simp: inv_mgr set_token_def)
next
  case SpawnCall
  with st have "queue_inv s' = queue_inv s"
    by (intro inv_frame) (auto simp: emit_def split: if_splits)
  with inv show ?thesis by simp
next
  case (SpawnFetched r eng)
  let ?s0 = "s\<lparr>pending_spawns := pending_spawns s - 1\<rparr>"
  have "queue_inv ?s0 = queue_inv s" by (intro inv_frame) simp_all
  with inv have inv0: "queue_inv ?s0" by simp
  show ?thesis
  proof (cases r)
    case (Inl err)
    with st SpawnFetched have "queue_inv s' = queue_inv s"
      by (intro inv_frame) (auto simp: Let_def split: if_splits)
    with inv show ?thesis by simp
  next
    case (Inr g)
    obtain res m' where sp: "spawn_shards eng (mgr ?s0) g = (res, m')"
      by (cases "spawn_shards eng (mgr ?s0) g")
    then have q: "queue m' = queue (mgr ?s0)" by (rule spawn_shards_queue)
    with inv0 have inv1: "queue_inv (?s0\<lparr>mgr := m'\<rparr>)" by (simp only: inv_mgr)
    show ?thesis
    proof (cases res)
      case (Inl err)
      with st SpawnFetched Inr sp have "s' = ?s0\<lparr>mgr := m', rejected := rejected ?s0 @ [err]\<rparr>"
        by (auto simp: Let_def split: if_splits)
      then have "queue_inv s' = queue_inv (?s0\<lparr>mgr := m'\<rparr>)"
        by (intro inv_frame) simp_all
      with inv1 show ?thesis by simp
    next
      case (Inr ids)
      with st SpawnFetched \<open>r = Inr g\<close> sp
      have "s' = foldl (\<lambda>s' sid. queueShard sid s') (?s0\<lparr>mgr := m'\<rparr>) ids"
        by (auto simp: Let_def split: if_splits)
      with inv1 show ?thesis by (simp only: inv_foldl_queueShard)
    qed
  qed
next
  case (ScheduleIdentify sid)
  with st inv show ?thesis by (auto simp: inv_queueShard)
next
  case (ScheduleShardRestart sid)
  from inv have "queue_inv (s\<lparr>mgr := (mgr s)\<lparr>shards := Cache_delete sid (shards (mgr s))\<rparr>\<rparr>)"
    by (simp add: inv_mgr)
  with st ScheduleShardRestart show ?thesis by (auto simp: inv_queueShard)
next
  case DestroyCall
  with st inv show ?thesis by (auto simp: inv_destroy_shards)
next
  case (ShardStatus sid x)
  have "queue (shard_update sid (\<lambda>sh. sh\<lparr>status := x\<rparr>) (mgr s)) = queue (mgr s)"
    by (simp add: shard_update_def split: option.splits)
  with st inv ShardStatus show ?thesis by (auto simp: inv_mgr)
next
  case (ShardPing sid x)
  have "queue (shard_update sid (\<lambda>sh. sh\<lparr>ping := x\<rparr>) (mgr s)) = queue (mgr s)"
    by (simp add: shard_update_def split: option.splits)
  with st inv ShardPing show ?thesis by (auto simp: inv_mgr)
next
  case (QueueGranted p)
  with st obtain t where t: "tasks s p = Some t" and u: "unblocked s t"
    and s': "s' = queueShard_granted new p (task_shard t) s"
    by (auto simp: unblocked_def split: option.splits pc.splits if_splits)
  with inv_granted [OF inv t u] show ?thesis by simp
next
  case (GatewayFetched p r)
  with st obtain t where t: "tasks s p = Some t" and pc: "task_pc t = AwaitGateway"
    and s': "s' = handleSessionLimit p (task_shard t) r s"
    by (auto split: option.splits pc.splits)
  from pc have "unblocked s t" by (simp add: unblocked_def)
  with inv_handleSessionLimit [OF inv t] s' show ?thesis by simp
next
  case (TimerFired p)
  with st obtain t where t: "tasks s p = Some t"
    and f: "timer_fired p (task_shard t) (task_pc t) s = Some s'"
    by (auto split: option.splits)
  from inv_timer_fired [OF inv t refl f] show ?thesis .
next
  case (ConnectSettled p r)
  with st obtain t where t: "tasks s p = Some t" and pc: "task_pc t = AwaitConnect"
    and s': "s' = queueShard_connected p (task_shard t) r s"
    by (auto split: option.splits pc.splits)
  from pc have "holds_slot (task_pc t)" by simp
  with inv_connected [OF inv t] s' show ?thesis by simp
qed

lemma inv_run: "queue_inv s \<Longrightarrow> run new evs s = Some s' \<Longrightarrow> queue_inv s'"
proof (induction evs arbitrary: s)
  case Nil
  then show ?case by simp
next
  case (Cons e evs)
  from Cons.prems(2) obtain s1 where 1: "step new e s = Some s1" and 2: "run new evs s1 = Some s'"
    by (auto split: option.splits)
  from Cons.IH [OF inv_step [OF Cons.prems(1) 1] 2] show ?case .
qed

lemma inv_boot: "queue_inv (boot env opts)"
  by (simp add: queue_inv_def boot_def constructor_def AsyncQueue_new_def)

section \<open>Auxiliary facts\<close>

lemmas runtime_defs =
  boot_def constructor_def AsyncQueue_new_def AsyncQueue_wait_def AsyncQueue_shift_def
  AsyncQueue_remaining_def emit_def suspend_def finally_shift_def throw_def queueShard_def
  getShard_def Cache_get_def Cache_delete_def queueShard_granted_def call_connect_def
  handleSessionLimit_def queueShard_connected_def timer_fired_def shard_update_def
  destroy_shards_def
  spawn_shards_def set_token_def js_strict_eq_def push_range.simps push_spread_def
  array_limit_def Let_def sample_engine_def
  sample_env_def sample_gateway_def sample_shard_def

text \<open>Rounding: the exponent is the right one, and integers up to 2 ^ 53 are doubles.\<close>

lemma pow2_int: "0 \<le> e \<Longrightarrow> (2::rat) powi e = of_int (2 ^ nat e)"
  by (simp add: power_int_def)

lemma floor_log2_bounds:
  assumes "0 < r"
  shows "2 powi (floor_log2 r) \<le> r \<and> r < 2 powi (floor_log2 r + 1)"
proof (cases "1 \<le> r")
  case True
  then have pos: "0 < \<lfloor>r\<rfloor>" by linarith
  from bitlen_bounds [OF pos] have lo: "2 ^ nat (bitlen \<lfloor>r\<rfloor> - 1) \<le> \<lfloor>r\<rfloor>"
    and hi: "\<lfloor>r\<rfloor> < 2 ^ nat (bitlen \<lfloor>r\<rfloor>)" by auto
  from pos have b1: "1 \<le> bitlen \<lfloor>r\<rfloor>"
    using bitlen_eq_zero_iff [of "\<lfloor>r\<rfloor>"] bitlen_nonneg [of "\<lfloor>r\<rfloor>"] by linarith
  from lo have "(of_int (2 ^ nat (bitlen \<lfloor>r\<rfloor> - 1)) :: rat) \<le> of_int \<lfloor>r\<rfloor>"
    by (simp only: of_int_le_iff)
  also have "\<dots> \<le> r" by simp
  finally have 1: "2 powi (bitlen \<lfloor>r\<rfloor> - 1) \<le> r" using b1 by (simp add: pow2_int)
  from hi have "\<lfloor>r\<rfloor> + 1 \<le> 2 ^ nat (bitlen \<lfloor>r\<rfloor>)" by simp
  then have "(of_int (\<lfloor>r\<rfloor> + 1) :: rat) \<le> of_int (2 ^ nat (bitlen \<lfloor>r\<rfloor>))"
    by (simp only: of_int_le_iff)
  moreover have "r < of_int (\<lfloor>r\<rfloor> + 1)" by linarith
  ultimately have 2: "r < 2 powi (bitlen \<lfloor>r\<rfloor>)" using b1 by (simp add: pow2_int)
  from True 1 2 show ?thesis by (simp add: floor_log2_def)
next
  case False
  with assms have r1: "r < 1" and inv1: "1 < 1 / r" by (simp_all add: field_simps)
  let ?c = "\<lceil>1 / r\<rceil> - 1"
  from inv1 have pos: "0 < ?c" by linarith
  from bitlen_bounds [OF pos] have lo: "2 ^ nat (bitlen ?c - 1) \<le> ?c"
    and hi: "?c < 2 ^ nat (bitlen ?c)" by auto
  from pos have b1: "1 \<le> bitlen ?c"
    using bitlen_eq_zero_iff [of ?c] bitlen_nonneg [of ?c] by linarith
  have "(of_int ?c :: rat) < 1 / r" by linarith
  moreover from lo have "(of_int (2 ^ nat (bitlen ?c - 1)) :: rat) \<le> of_int ?c"
    by (simp only: of_int_le_iff)
  ultimately have "2 powi (bitlen ?c - 1) < 1 / r" using b1 by (simp add: pow2_int)
  then have "r < 1 / 2 powi (bitlen ?c - 1)" using assms by (simp add: field_simps)
  then have 2: "r < 2 powi (- bitlen ?c + 1)"
    by (simp add: power_int_minus_divide [symmetric])
  from hi have "\<lceil>1 / r\<rceil> \<le> 2 ^ nat (bitlen ?c)" by simp
  then have "(of_int \<lceil>1 / r\<rceil> :: rat) \<le> of_int (2 ^ nat (bitlen ?c))"
    by (simp only: of_int_le_iff)
  also have "\<dots> = 2 powi (bitlen ?c)" using b1 by (simp add: pow2_int)
  finally have "of_int \<lceil>1 / r\<rceil> \<le> (2::rat) powi (bitlen ?c)" .
  moreover have "1 / r \<le> of_int \<lceil>1 / r\<rceil>" by (rule le_of_int_ceiling)
  ultimately have "1 / r \<le> 2 powi (bitlen ?c)" by (rule order_trans [rotated])
  then have "1 / 2 powi (bitlen ?c) \<le> r" using assms by (simp add: field_simps)
  then have 1: "2 powi (- bitlen ?c) \<le> r" by (simp add: power_int_minus_divide)
  from False 1 2 show ?thesis by (simp add: floor_log2_def)
qed

lemma floor_log2_eqI:
  assumes "2 powi e \<le> r" and "r < 2 powi (e + 1)"
  shows "floor_log2 r = e"
proof -
  have pos: "0 < r" using assms(1) zero_less_power_int [of "2::rat" e] by linarith
  from floor_log2_bounds [OF pos] have lo: "2 powi (floor_log2 r) \<le> r"
    and hi: "r < 2 powi (floor_log2 r + 1)" by auto
  have "\<not> e < floor_log2 r"
  proof
    assume "e < floor_log2 r"
    then have "(2::rat) powi (e + 1) \<le> 2 powi (floor_log2 r)"
      by (intro power_int_increasing) auto
    with lo assms(2) show False by linarith
  qed
  moreover have "\<not> floor_log2 r < e"
  proof
    assume "floor_log2 r < e"
    then have "(2::rat) powi (floor_log2 r + 1) \<le> 2 powi e"
      by (intro power_int_increasing) auto
    with hi assms(1) show False by linarith
  qed
  ultimately show ?thesis by linarith
qed

lemma round_half_even_int [simp]: "round_half_even (of_int z) = z"
  by (simp add: round_half_even_def)


lemma to_double_int:
  assumes "\<bar>k\<bar> \<le> 9007199254740992"
  shows "to_double (of_int k) = Num (of_int k)"
proof (cases "k = 0")
  case True
  then show ?thesis by (simp add: to_double_def)
next
  case False
  let ?r = "of_int k :: rat"
  let ?e = "floor_log2 \<bar>?r\<bar>"
  from False have pos: "0 < \<bar>?r\<bar>" and ge1: "1 \<le> \<bar>?r\<bar>" by auto
  from floor_log2_bounds [OF pos] have lo: "2 powi ?e \<le> \<bar>?r\<bar>"
    and hi: "\<bar>?r\<bar> < 2 powi (?e + 1)" by auto
  have e0: "0 \<le> ?e"
  proof (rule ccontr)
    assume "\<not> 0 \<le> ?e"
    then have "(2::rat) powi (?e + 1) \<le> 2 powi 0" by (intro power_int_increasing) auto
    with hi ge1 show False by simp
  qed
  from assms have "\<bar>?r\<bar> \<le> of_int 9007199254740992" by (simp only: of_int_abs [symmetric] of_int_le_iff)
  then have le53: "\<bar>?r\<bar> \<le> 2 powi 53" by simp
  have e53: "?e \<le> 53"
  proof (rule ccontr)
    assume "\<not> ?e \<le> 53"
    then have "(2::rat) powi (53 + 1) \<le> 2 powi ?e" by (intro power_int_increasing) auto
    moreover have "(2::rat) powi 53 < 2 powi (53 + 1)" by (intro power_int_strict_increasing) auto
    ultimately show False using lo le53 by linarith
  qed
  have m: "max ?e (- 1022) = ?e" using e0 by simp
  let ?u = "(2::rat) powi (?e - 52)"
  have upos: "0 < ?u" by simp
  have "\<exists>z. ?r / ?u = of_int z"
  proof (cases "?e \<le> 52")
    case True
    then have "?u = 1 / of_int (2 ^ nat (52 - ?e))"
      using power_int_minus_divide [of "2::rat" "52 - ?e"] by (simp add: pow2_int)
    then have "?r / ?u = of_int (k * 2 ^ nat (52 - ?e))" by simp
    then show ?thesis by blast
  next
    case False
    with e53 have e: "?e = 53" by simp
    with lo le53 have "\<bar>?r\<bar> = 2 powi 53" by simp
    then have "\<bar>k\<bar> = 9007199254740992"
      by (simp only: of_int_abs [symmetric]) (simp flip: of_int_eq_iff [where 'a = rat])
    then have "k = 2 * (k div 2)" by presburger
    then have "?r = 2 * of_int (k div 2)" by (metis of_int_mult of_int_numeral)
    with e have "?r / ?u = of_int (k div 2)" by simp
    then show ?thesis by blast
  qed
  then obtain z where z: "?r / ?u = of_int z" by blast
  have "round_half_even (?r / ?u) = z" by (simp only: z round_half_even_int)
  moreover from z upos have "of_int z * ?u = ?r" by (simp add: field_simps)
  ultimately have v: "of_int (round_half_even (?r / ?u)) * ?u = ?r" by simp
  have "(2::rat) powi 53 < 2 powi 1024" by (intro power_int_strict_increasing) auto
  with le53 have small: "\<not> 2 powi 1024 \<le> \<bar>?r\<bar>" by linarith
  from False m v small show ?thesis
    unfolding to_double_def Let_def by (simp only: of_int_eq_0_iff if_False)
qed

lemma to_double_numeral [simp]:
  "(numeral w :: int) \<le> 9007199254740992 \<Longrightarrow> to_double (numeral w) = Num (numeral w)"
  using to_double_int [of "numeral w"] by simp

lemma to_double_1 [simp]: "to_double 1 = Num 1"
  using to_double_int [of 1] by simp

lemma to_double_4_3: "to_double (4 / 3) = Num (6004799503160661 / 4503599627370496)"
proof -
  have e: "floor_log2 (4 / 3) = 0" by (rule floor_log2_eqI) simp_all
  have f: "\<lfloor>18014398509481984 / 3 :: rat\<rfloor> = 6004799503160661"
    by (rule floor_unique) simp_all
  show ?thesis
    by (simp add: to_double_def e f round_half_even_def Let_def power_int_minus_divide)
qed

lemma js_add_int:
  "\<bar>a + b\<bar> \<le> 9007199254740992 \<Longrightarrow>
   js_add (Num (of_int a)) (Num (of_int b)) = Num (of_int (a + b))"
  using to_double_int [of "a + b"] by simp

lemma foldl_ping_int:
  "map ping shs = map (\<lambda>k. Num (of_int k)) ks \<Longrightarrow>
   \<bar>a\<bar> + sum_list (map abs ks) \<le> 9007199254740992 \<Longrightarrow>
   foldl (\<lambda>a b. js_add a (ping b)) (Num (of_int a)) shs = Num (of_int (a + sum_list ks))"
proof (induction shs arbitrary: a ks)
  case Nil
  then show ?case by simp
next
  case (Cons sh shs)
  then obtain k ks' where ks: "ks = k # ks'" by (cases ks) auto
  with Cons.prems have p: "ping sh = Num (of_int k)"
    and rest: "map ping shs = map (\<lambda>k. Num (of_int k)) ks'" by auto
  from Cons.prems(2) ks have b: "\<bar>a + k\<bar> + sum_list (map abs ks') \<le> 9007199254740992"
    by simp
  have "0 \<le> sum_list (map abs ks')" by (rule sum_list_nonneg) auto
  with b have "\<bar>a + k\<bar> \<le> 9007199254740992" by linarith
  then have "js_add (Num (of_int a)) (ping sh) = Num (of_int (a + k))"
    unfolding p by (rule js_add_int)
  with Cons.IH [OF rest b] ks show ?case by (simp add: add.assoc)
qed

lemma sum_list_of_int: "sum_list (map of_int ks) = (of_int (sum_list ks) :: rat)"
  by (induction ks) simp_all

text \<open>The loop of \<open>spawn\<close>: it returns the range when that fits the array, and throws when not.\<close>

lemma push_range_fits:
  assumes "n \<le> int (array_limit eng)"
  shows "push_range eng (Num (of_int (int (length acc)))) (Num (of_int n)) acc
           = Inr (acc @ map (\<lambda>k. Num (of_int k)) [int (length acc)..n - 1])"
  using assms
proof (induction "nat (n - int (length acc))" arbitrary: acc)
  case 0
  then have "\<not> int (length acc) < n" by simp
  then show ?case by (subst push_range.simps) simp
next
  case (Suc d)
  let ?x = "Num (of_int (int (length acc)))"
  from Suc have lt: "int (length acc) < n" by simp
  with Suc.prems have room: "length acc < array_limit eng" by simp
  have "array_limit eng \<le> 4294967295" by (simp add: array_limit_def)
  with room have "\<bar>int (length acc) + 1\<bar> \<le> 9007199254740992" by simp
  then have inc: "js_add ?x (Num 1) = Num (of_int (int (length (acc @ [?x]))))"
    using js_add_int [of "int (length acc)" 1] by (simp add: add.commute)
  from Suc.hyps(2) have "d = nat (n - int (length (acc @ [?x])))" by simp
  note IH = Suc.hyps(1) [OF this Suc.prems]
  from lt have u: "[int (length acc)..n - 1] = int (length acc) # [int (length (acc @ [?x]))..n - 1]"
    by (simp add: upto_rec1 add.commute)
  have "push_range eng ?x (Num (of_int n)) acc
          = push_range eng (js_add ?x (Num 1)) (Num (of_int n)) (acc @ [?x])"
    using lt room by (subst push_range.simps) simp
  also have "\<dots> = Inr ((acc @ [?x]) @
                   map (\<lambda>k. Num (of_int k)) [int (length (acc @ [?x]))..n - 1])"
    unfolding inc by (rule IH)
  also have "\<dots> = Inr (acc @ map (\<lambda>k. Num (of_int k)) [int (length acc)..n - 1])"
    unfolding u by simp
  finally show ?case .
qed

lemma push_range_full:
  assumes "length acc \<le> array_limit eng"
    and "\<And>k. k \<le> array_limit eng \<Longrightarrow> js_lt (Num (of_int (int k))) n"
  shows "push_range eng (Num (of_int (int (length acc)))) n acc = Inl RangeError"
  using assms(1)
proof (induction "array_limit eng - length acc" arbitrary: acc)
  case 0
  then have "\<not> length acc < array_limit eng" by simp
  with assms(2) [OF "0.prems"] show ?case by (subst push_range.simps) simp
next
  case (Suc d)
  let ?x = "Num (of_int (int (length acc)))"
  from Suc have room: "length acc < array_limit eng" by simp
  have "array_limit eng \<le> 4294967295" by (simp add: array_limit_def)
  with room have "\<bar>int (length acc) + 1\<bar> \<le> 9007199254740992" by simp
  then have inc: "js_add ?x (Num 1) = Num (of_int (int (length (acc @ [?x]))))"
    using js_add_int [of "int (length acc)" 1] by (simp add: add.commute)
  from Suc.hyps(2) have d: "d = array_limit eng - length (acc @ [?x])" by simp
  from room have le: "length (acc @ [?x]) \<le> array_limit eng" by simp
  have "push_range eng ?x n acc = push_range eng (js_add ?x (Num 1)) n (acc @ [?x])"
    using assms(2) [OF Suc.prems] room by (subst push_range.simps) simp
  also have "\<dots> = Inl RangeError"
    unfolding inc by (rule Suc.hyps(1) [OF d le])
  finally show ?case .
qed

lemma push_range_int:
  "push_range eng (Num 0) (Num (of_int n)) []
     = (if n \<le> int (array_limit eng) then Inr (map (\<lambda>k. Num (of_int k)) [0..n - 1])
        else Inl RangeError)"
proof (cases "n \<le> int (array_limit eng)")
  case True
  with push_range_fits [OF True, of "[]"] show ?thesis by simp
next
  case False
  then have "\<And>k. k \<le> array_limit eng \<Longrightarrow> js_lt (Num (of_int (int k))) (Num (of_int n))"
    by simp
  from push_range_full [of "[]" eng, OF _ this] False show ?thesis by simp
qed

lemma push_range_infinity: "push_range eng (Num 0) PosInfinity [] = Inl RangeError"
  using push_range_full [of "[]" eng PosInfinity] by simp

lemma numeric_entries_eq:
  "numeric_entries items = [n. JNumber n \<leftarrow> items, n \<noteq> NaN]"
proof (induction items)
  case Nil
  show ?case by simp
next
  case (Cons item items)
  then show ?case
  proof (cases item)
    case (JNumber n)
    with Cons show ?thesis by (cases n) simp_all
  qed simp_all
qed

lemma connect_times_append:
  "connect_times (l @ [(t, e)]) = connect_times l @ (case e of Connect _ \<Rightarrow> [t] | _ \<Rightarrow> [])"
  by (induction l rule: connect_times.induct) (simp_all split: effect.splits)

lemma queueShard_obs:
  "now (queueShard sid s) = now s"
  "log (queueShard sid s) = log s @ [(now s, QueueShard sid)]"
  by (simp_all add: queueShard_def AsyncQueue_wait_def suspend_def emit_def Let_def)

lemma foldl_queueShard_obs:
  "now (foldl (\<lambda>s' sid. queueShard sid s') s ids) = now s \<and>
   connect_times (log (foldl (\<lambda>s' sid. queueShard sid s') s ids)) = connect_times (log s) \<and>
   next_pid s \<le> next_pid (foldl (\<lambda>s' sid. queueShard sid s') s ids) \<and>
   (\<forall>p < next_pid s. tasks (foldl (\<lambda>s' sid. queueShard sid s') s ids) p = tasks s p)"
proof (induction ids arbitrary: s)
  case Nil
  show ?case by simp
next
  case (Cons i ids)
  from Cons [of "queueShard i s"] show ?case
    by (simp add: queueShard_obs queueShard_proj connect_times_append)
qed

lemma destroy_shards_obs:
  "now (destroy_shards s) = now s" "tasks (destroy_shards s) = tasks s"
  by (simp_all add: destroy_shards_def foldl_emit_frame)

lemma destroy_shards_connects:
  "connect_times (log (foldl (\<lambda>s' sid. emit (DestroyShard sid) s') s ids)) = connect_times (log s)"
  by (induction ids arbitrary: s) (simp_all add: emit_def connect_times_append)

lemma finally_shift_obs:
  "now (finally_shift p s) = now s" "log (finally_shift p s) = log s"
  "now (throw e p s) = now s" "log (throw e p s) = log s"
  by (simp_all add: finally_shift_def throw_def)

lemma now_step: "step new e s = Some s' \<Longrightarrow> now s \<le> now s'"
proof (cases e)
  case (SpawnFetched r eng)
  assume "step new e s = Some s'"
  with SpawnFetched show ?thesis
    by (auto simp: Let_def foldl_queueShard_obs split: if_splits sum.splits prod.splits)
next
  case (QueueGranted p)
  assume "step new e s = Some s'"
  with QueueGranted show ?thesis
    by (auto simp: queueShard_granted_def finally_shift_obs suspend_def emit_def Let_def
        split: option.splits pc.splits if_splits sum.splits)
next
  case (GatewayFetched p r)
  assume "step new e s = Some s'"
  with GatewayFetched show ?thesis
    by (auto simp: handleSessionLimit_def call_connect_def finally_shift_obs suspend_def emit_def
        Let_def split: option.splits pc.splits if_splits sum.splits)
next
  case (TimerFired p)
  assume "step new e s = Some s'"
  with TimerFired show ?thesis
    by (auto simp: timer_fired_def call_connect_def finally_shift_obs suspend_def emit_def
        split: option.splits pc.splits if_splits)
next
  case (ConnectSettled p r)
  assume "step new e s = Some s'"
  with ConnectSettled show ?thesis
    by (auto simp: queueShard_connected_def finally_shift_obs queueShard_obs suspend_def emit_def
        Let_def split: option.splits pc.splits if_splits sum.splits)
qed (auto simp: emit_def queueShard_obs destroy_shards_obs split: if_splits)

lemma now_run: "run new evs s = Some s' \<Longrightarrow> now s \<le> now s'"
proof (induction evs arbitrary: s)
  case Nil
  then show ?case by simp
next
  case (Cons e evs)
  then obtain s1 where 1: "step new e s = Some s1" and 2: "run new evs s1 = Some s'"
    by (auto split: option.splits)
  from now_step [OF 1] Cons.IH [OF 2] show ?case by simp
qed

lemma holder_unique:
  assumes inv: "queue_inv s" and t: "tasks s p = Some t" "holds_slot (task_pc t)"
    and t': "tasks s q = Some t'" "unblocked s t'"
  shows "q = p"
  using unblocked_is_head [OF inv t(1) holds_slot_unblocked [OF t(2)]]
    unblocked_is_head [OF inv t'] by auto

lemma cooldown_step:
  assumes inv: "queue_inv s" and t: "tasks s p = Some t" and pc: "task_pc t = AwaitCooldown w"
    and st: "step new e s = Some s'" and early: "now s' < w"
  shows "tasks s' p = Some t \<and> connect_times (log s') = connect_times (log s)"
proof -
  from pc have h: "holds_slot (task_pc t)" by simp
  note uniq = holder_unique [OF inv t h]
  from task_not_fresh [OF inv t] inv t have lt: "p < next_pid s"
    by (auto simp: queue_inv_def Let_def)
  show ?thesis
  proof (cases e)
    case (Tick d)
    with st t show ?thesis by auto
  next
    case (SetToken x)
    with st t show ?thesis by auto
  next
    case SpawnCall
    with st t show ?thesis by (auto simp: emit_def connect_times_append split: if_splits)
  next
    case (SpawnFetched r eng)
    with st t lt show ?thesis
      by (auto simp: Let_def foldl_queueShard_obs split: if_splits sum.splits prod.splits)
  next
    case (ScheduleIdentify sid)
    with st t lt show ?thesis
      by (auto simp: queueShard_obs queueShard_proj connect_times_append)
  next
    case (ScheduleShardRestart sid)
    with st t lt show ?thesis
      by (auto simp: queueShard_obs queueShard_proj connect_times_append)
  next
    case DestroyCall
    with st t show ?thesis
      by (auto simp: foldl_emit_frame destroy_shards_connects destroy_shards_def)
  next
    case (ShardStatus sid x)
    with st t show ?thesis by auto
  next
    case (ShardPing sid x)
    with st t show ?thesis by auto
  next
    case (QueueGranted q)
    with st obtain t' where t': "tasks s q = Some t'" and u: "unblocked s t'"
      and a: "\<exists>a. task_pc t' = AwaitQueue a"
      by (auto simp: unblocked_def split: option.splits pc.splits if_splits)
    from uniq [OF t' u] t t' pc a show ?thesis by auto
  next
    case (GatewayFetched q r)
    with st obtain t' where t': "tasks s q = Some t'" and a: "task_pc t' = AwaitGateway"
      by (auto split: option.splits pc.splits)
    then have "unblocked s t'" by (simp add: unblocked_def)
    from uniq [OF t' this] t t' pc a show ?thesis by auto
  next
    case (ConnectSettled q r)
    with st obtain t' where t': "tasks s q = Some t'" and a: "task_pc t' = AwaitConnect"
      by (auto split: option.splits pc.splits)
    then have "unblocked s t'" by (simp add: unblocked_def)
    from uniq [OF t' this] t t' pc a show ?thesis by auto
  next
    case (TimerFired q)
    with st obtain t' where t': "tasks s q = Some t'"
      and f: "timer_fired q (task_shard t') (task_pc t') s = Some s'"
      by (auto split: option.splits)
    then have "holds_slot (task_pc t')" by (cases "task_pc t'") (simp_all add: timer_fired_def)
    then have "unblocked s t'" by (rule holds_slot_unblocked)
    from uniq [OF t' this] t t' have "t' = t" by auto
    with f pc have "w \<le> now s" and "s' = finally_shift q s"
      by (auto simp: timer_fired_def split: if_splits)
    with early show ?thesis by (simp add: finally_shift_obs)
  qed
qed

lemma cooldown_run:
  assumes "queue_inv s" and "tasks s p = Some t" and "task_pc t = AwaitCooldown w"
    and "run new evs s = Some s'" and "now s' < w"
  shows "tasks s' p = Some t \<and> connect_times (log s') = connect_times (log s)"
  using assms
proof (induction evs arbitrary: s)
  case Nil
  then show ?case by simp
next
  case (Cons e evs)
  from Cons.prems(4) obtain s1 where 1: "step new e s = Some s1" and 2: "run new evs s1 = Some s'"
    by (auto split: option.splits)
  from now_run [OF 2] Cons.prems(5) have e1: "now s1 < w" by simp
  from cooldown_step [OF Cons.prems(1,2,3) 1 e1]
  have t1: "tasks s1 p = Some t" and c1: "connect_times (log s1) = connect_times (log s)" by auto
  from Cons.IH [OF inv_step [OF Cons.prems(1) 1] t1 Cons.prems(3) 2 Cons.prems(5)] c1
  show ?case by simp
qed

text \<open>
  \<open>spawn\<close> run alone agrees with its two steps on the event loop: the call and the arrival
  of the REST answer, after which every shard of the list has been handed to \<open>queueShard\<close>.
\<close>

lemma spawn_as_steps:
  assumes "spawn eng (mgr s) rest = (Inr ids, m', effs)"
  shows "run new [SpawnCall, SpawnFetched rest eng] s
           = Some (foldl (\<lambda>s' sid. queueShard sid s') ((emit ApiGet s)\<lparr>mgr := m'\<rparr>) ids)"
  using assms
  by (auto simp: spawn_def emit_def Let_def split: if_splits sum.splits prod.splits)

lemma spawn_effects:
  "log (foldl (\<lambda>s' sid. queueShard sid s') s ids)
     = log s @ map (\<lambda>sid. (now s, QueueShard sid)) ids"
  by (induction ids arbitrary: s) (simp_all add: queueShard_obs)

lemma Cache_set_same: "map_of c k = Some v \<Longrightarrow> Cache_set k v c = c"
  by (induction c) (auto split: if_splits)

section \<open>The claims\<close>

text \<open>
  C1. Identify admission is globally serialised: in every state that a run of the manager
  reaches, a call of \<open>queueShard\<close> that holds the queue slot (it is between the end of its
  \<open>AsyncQueue.wait\<close> and its \<open>AsyncQueue.shift\<close>) is the only one that does, and so the only one
  that can have a \<open>shard.connect\<close> in flight.
\<close>

theorem identify_admission_serialized:
  assumes "run new evs (boot env opts) = Some s" and "in_slot s p"
  shows "in_slot s q = (q = p) \<and> connecting s q = (q = p \<and> connecting s p)"
proof -
  from assms(1) have inv: "queue_inv s" by (rule inv_run [OF inv_boot])
  from assms(2) obtain t where t: "tasks s p = Some t" "holds_slot (task_pc t)"
    by (auto simp: in_slot_def split: option.splits)
  have 1: "q = p" if "in_slot s q"
  proof -
    from that obtain t' where t': "tasks s q = Some t'" "holds_slot (task_pc t')"
      by (auto simp: in_slot_def split: option.splits)
    from unblocked_is_head [OF inv t(1) holds_slot_unblocked [OF t(2)]]
      unblocked_is_head [OF inv t'(1) holds_slot_unblocked [OF t'(2)]]
    show ?thesis by auto
  qed
  have 2: "in_slot s q" if "connecting s q"
    using that by (auto simp: in_slot_def connecting_def split: option.splits)
  from 1 2 assms(2) show ?thesis by blast
qed

theorem identify_admission_serialized_witness:
  "run sample_shard sample_run (boot sample_env \<lparr>shards_option = Auto, totalShards = None\<rparr>) \<noteq> None \<and>
   in_slot (the (run sample_shard sample_run
                   (boot sample_env \<lparr>shards_option = Auto, totalShards = None\<rparr>))) 0 \<and>
   connecting (the (run sample_shard sample_run
                   (boot sample_env \<lparr>shards_option = Auto, totalShards = None\<rparr>))) 0 \<and>
   \<not> in_slot (the (run sample_shard sample_run
                   (boot sample_env \<lparr>shards_option = Auto, totalShards = None\<rparr>))) 1 \<and>
   \<not> connecting (the (run sample_shard sample_run
                   (boot sample_env \<lparr>shards_option = Auto, totalShards = None\<rparr>))) 1"
proof -
  let ?r = "run sample_shard sample_run (boot sample_env \<lparr>shards_option = Auto, totalShards = None\<rparr>)"
  have "\<exists>s. ?r = Some s \<and> in_slot s 0 \<and> connecting s 0"
    by (simp add: sample_run_def runtime_defs in_slot_def connecting_def)
  then obtain s where r: "?r = Some s" and i: "in_slot s 0" and c: "connecting s 0" by blast
  from identify_admission_serialized [OF r i, of 1] r i c show ?thesis by simp
qed

text \<open>
  C2, as stated, fails. In the run \<open>late_restart_run\<close> the first identify is answered with
  \<open>Ready\<close> while no other call waits: the manager does not sleep, and the next identify
  attempt follows 100 ms after the first.
\<close>

theorem cooldown_counterexample:
  "log (the (run sample_shard late_restart_run
               (boot sample_env \<lparr>shards_option = Count (Num 1), totalShards = None\<rparr>)))
     = [(0, ApiGet), (0, QueueShard (Num 0)), (0, ApiGet), (0, Connect (Num 0)),
        (100, QueueShard (Num 0)), (100, ApiGet), (100, Connect (Num 0))] \<and>
   \<not> spaced (connect_times (log (the (run sample_shard late_restart_run
               (boot sample_env \<lparr>shards_option = Count (Num 1), totalShards = None\<rparr>)))))"
  by (simp add: late_restart_run_def runtime_defs)

text \<open>
  C2, amended. When the answer of \<open>shard.connect\<close> is \<open>Ready\<close> and at least one other call of
  \<open>queueShard\<close> waits in the queue, the manager sleeps 5000 ms while it keeps the queue slot,
  and no identify attempt is made by any call until those 5000 ms are over; when they are
  over the timer fires and the call releases the slot, its entry leaving the head of the
  queue. When no other call waits, the slot is released at once and there is no sleep.
\<close>

theorem cooldown_only_when_others_wait:
  assumes reach: "run new evs (boot env opts) = Some s"
    and t: "tasks s p = Some t" and pc: "task_pc t = AwaitConnect"
  shows "step new (ConnectSettled p (Inr Ready)) s
           = Some (if 1 < AsyncQueue_remaining (queue (mgr s))
                   then suspend p (task_shard t) (AwaitCooldown (now s + 5000))
                          (emit (Sleep (Num 5000)) s)
                   else finally_shift p s) \<and>
         (1 < AsyncQueue_remaining (queue (mgr s)) \<longrightarrow>
          run new evs' (suspend p (task_shard t) (AwaitCooldown (now s + 5000))
                          (emit (Sleep (Num 5000)) s)) = Some s' \<longrightarrow>
          now s' < now s + 5000 \<longrightarrow>
          in_slot s' p \<and> connect_times (log s') = connect_times (log s) \<and>
          hd (promises (queue (mgr s'))) = p \<and>
          run new [Tick d, TimerFired p] s'
            = (if now s + 5000 \<le> now s' + d
               then Some (finally_shift p (s'\<lparr>now := now s' + d\<rparr>)) else None) \<and>
          promises (queue (mgr (finally_shift p (s'\<lparr>now := now s' + d\<rparr>))))
            = tl (promises (queue (mgr s'))) \<and>
          \<not> in_slot (finally_shift p (s'\<lparr>now := now s' + d\<rparr>)) p)"
proof -
  let ?s1 = "suspend p (task_shard t) (AwaitCooldown (now s + 5000)) (emit (Sleep (Num 5000)) s)"
  let ?t1 = "\<lparr>task_shard = task_shard t, task_pc = AwaitCooldown (now s + 5000)\<rparr>"
  from reach have inv: "queue_inv s" by (rule inv_run [OF inv_boot])
  from pc have u: "unblocked s t" by (simp add: unblocked_def)
  have 1: "step new (ConnectSettled p (Inr Ready)) s
           = Some (if 1 < AsyncQueue_remaining (queue (mgr s)) then ?s1 else finally_shift p s)"
    using t pc by (simp add: queueShard_connected_def)
  have inv1: "queue_inv ?s1" by (rule inv_suspend_emit [OF inv t u]) simp
  have t1: "tasks ?s1 p = Some ?t1" by (simp add: suspend_def)
  have l1: "connect_times (log ?s1) = connect_times (log s)"
    by (simp add: suspend_def emit_def connect_times_append)
  have 2: "in_slot s' p \<and> connect_times (log s') = connect_times (log s) \<and>
          hd (promises (queue (mgr s'))) = p \<and>
          run new [Tick d, TimerFired p] s'
            = (if now s + 5000 \<le> now s' + d
               then Some (finally_shift p (s'\<lparr>now := now s' + d\<rparr>)) else None) \<and>
          promises (queue (mgr (finally_shift p (s'\<lparr>now := now s' + d\<rparr>))))
            = tl (promises (queue (mgr s'))) \<and>
          \<not> in_slot (finally_shift p (s'\<lparr>now := now s' + d\<rparr>)) p"
    if r: "run new evs' ?s1 = Some s'" and e: "now s' < now s + 5000"
  proof -
    from cooldown_run [OF inv1 t1 _ r e] l1
    have t': "tasks s' p = Some ?t1" and c': "connect_times (log s') = connect_times (log s)"
      by simp_all
    from t' have a: "in_slot s' p" by (simp add: in_slot_def)
    from inv_run [OF inv1 r] have inv': "queue_inv s'" .
    have "unblocked s' ?t1" by (simp add: unblocked_def)
    from unblocked_is_head [OF inv' t' this] obtain ps
      where q: "promises (queue (mgr s')) = p # ps" by blast
    from t' have b: "run new [Tick d, TimerFired p] s'
            = (if now s + 5000 \<le> now s' + d
               then Some (finally_shift p (s'\<lparr>now := now s' + d\<rparr>)) else None)"
      by (simp add: timer_fired_def)
    from q have c: "promises (queue (mgr (finally_shift p (s'\<lparr>now := now s' + d\<rparr>))))
            = tl (promises (queue (mgr s')))"
      by (simp add: finally_shift_def AsyncQueue_shift_def)
    have f: "\<not> in_slot (finally_shift p (s'\<lparr>now := now s' + d\<rparr>)) p"
      by (simp add: finally_shift_def in_slot_def)
    from a c' q b c f show ?thesis by simp
  qed
  from 1 2 show ?thesis by blast
qed

theorem cooldown_only_when_others_wait_witness:
  "run sample_shard (sample_run @ [Tick 50])
       (boot sample_env \<lparr>shards_option = Auto, totalShards = None\<rparr>) = Some cooldown_example \<and>
   tasks cooldown_example 0 = Some \<lparr>task_shard = Num 0, task_pc = AwaitConnect\<rparr> \<and>
   1 < AsyncQueue_remaining (queue (mgr cooldown_example)) \<and>
   run sample_shard [ConnectSettled 0 (Inr Ready), Tick 4000, ScheduleIdentify (Num 0), Tick 999]
       cooldown_example = Some cooldown_later \<and>
   now cooldown_later < now cooldown_example + 5000 \<and>
   in_slot cooldown_later 0 \<and>
   connect_times (log cooldown_later) = connect_times (log cooldown_example) \<and>
   promises (queue (mgr cooldown_later)) = [0, 1, 2] \<and>
   run sample_shard [Tick 0, TimerFired 0] cooldown_later = None \<and>
   run sample_shard [Tick 1, TimerFired 0] cooldown_later
     = Some (finally_shift 0 (cooldown_later\<lparr>now := now cooldown_later + 1\<rparr>)) \<and>
   promises (queue (mgr (finally_shift 0 (cooldown_later\<lparr>now := now cooldown_later + 1\<rparr>))))
     = [1, 2] \<and>
   \<not> in_slot (finally_shift 0 (cooldown_later\<lparr>now := now cooldown_later + 1\<rparr>)) 0"
proof -
  let ?B = "boot sample_env \<lparr>shards_option = Auto, totalShards = None\<rparr>"
  have r: "run sample_shard (sample_run @ [Tick 50]) ?B = Some cooldown_example"
    by (simp add: cooldown_example_def sample_run_def runtime_defs)
  have t: "tasks cooldown_example 0 = Some \<lparr>task_shard = Num 0, task_pc = AwaitConnect\<rparr>"
    by (simp add: cooldown_example_def sample_run_def runtime_defs)
  have m: "1 < AsyncQueue_remaining (queue (mgr cooldown_example))"
    by (simp add: cooldown_example_def sample_run_def runtime_defs)
  have r': "run sample_shard [Tick 4000, ScheduleIdentify (Num 0), Tick 999]
              (suspend 0 (Num 0) (AwaitCooldown (now cooldown_example + 5000))
                 (emit (Sleep (Num 5000)) cooldown_example)) = Some cooldown_later"
    by (simp add: cooldown_later_def cooldown_example_def sample_run_def runtime_defs)
  have r'': "run sample_shard
              [ConnectSettled 0 (Inr Ready), Tick 4000, ScheduleIdentify (Num 0), Tick 999]
              cooldown_example = Some cooldown_later"
    by (simp add: cooldown_later_def cooldown_example_def sample_run_def runtime_defs)
  have e: "now cooldown_later < now cooldown_example + 5000"
    and n: "now cooldown_example + 5000 = now cooldown_later + 1"
    by (simp_all add: cooldown_later_def cooldown_example_def sample_run_def runtime_defs)
  have q: "promises (queue (mgr cooldown_later)) = [0, 1, 2]"
    by (simp add: cooldown_later_def cooldown_example_def sample_run_def runtime_defs)
  from cooldown_only_when_others_wait [OF r t, where evs' = "[Tick 4000, ScheduleIdentify (Num 0), Tick 999]"
      and s' = cooldown_later and d = 0]
    cooldown_only_when_others_wait [OF r t, where evs' = "[Tick 4000, ScheduleIdentify (Num 0), Tick 999]"
      and s' = cooldown_later and d = 1] r t m r' r'' e n q
  show ?thesis by (simp del: step.simps run.simps)
qed



text \<open>
  C4. When \<open>shard.connect\<close> answers \<open>InvalidSession\<close>, a new call of \<open>queueShard\<close> for the same
  shard joins the tail of the admission queue, behind every call that waits there; it is not
  granted the slot at once, and the current call makes no second connect: it sleeps the
  cooldown and then releases the slot.
\<close>

theorem invalid_session_requeued_at_tail:
  assumes reach: "run new evs (boot env opts) = Some s"
    and t: "tasks s p = Some t" and pc: "task_pc t = AwaitConnect"
    and g: "step new (ConnectSettled p (Inr InvalidSession)) s = Some s'"
  shows "promises (queue (mgr s')) = promises (queue (mgr s)) @ [next_pid s] \<and>
         hd (promises (queue (mgr s'))) = p \<and>
         tasks s' (next_pid s)
           = Some \<lparr>task_shard = task_shard t,
                   task_pc = AwaitQueue (Some (last (promises (queue (mgr s)))))\<rparr> \<and>
         step new (QueueGranted (next_pid s)) s' = None \<and>
         tasks s' p = Some \<lparr>task_shard = task_shard t, task_pc = AwaitCooldown (now s + 5000)\<rparr> \<and>
         log s' = log s @ [(now s, QueueShard (task_shard t)), (now s, Sleep (Num 5000))]"
proof -
  let ?q = "promises (queue (mgr s))"
  from reach have inv: "queue_inv s" by (rule inv_run [OF inv_boot])
  from pc have u: "unblocked s t" by (simp add: unblocked_def)
  from unblocked_is_head [OF inv t u] obtain ps where q: "?q = p # ps" by blast
  from task_not_fresh [OF inv t] have fresh: "p \<noteq> next_pid s" .
  from q have "last ?q \<in> set ?q" by (metis last_in_set list.distinct(1))
  with inv have nr: "last ?q \<notin> resolved (queue (mgr s))"
    by (auto simp: queue_inv_def Let_def)
  from g t pc have s': "s' = queueShard_connected p (task_shard t) (Inr InvalidSession) s"
    by simp
  have len: "1 < AsyncQueue_remaining (queue (mgr (queueShard (task_shard t) s)))"
    using q by (simp add: AsyncQueue_remaining_def queueShard_proj)
  from s' len have s'': "s' = suspend p (task_shard t) (AwaitCooldown (now s + 5000))
                                (emit (Sleep (Num 5000)) (queueShard (task_shard t) s))"
    by (simp add: queueShard_connected_def queueShard_obs)
  have 1: "promises (queue (mgr s')) = ?q @ [next_pid s]"
    and 2: "resolved (queue (mgr s')) = resolved (queue (mgr s))"
    by (simp_all add: s'' suspend_def emit_def queueShard_proj)
  have 3: "tasks s' (next_pid s)
           = Some \<lparr>task_shard = task_shard t, task_pc = AwaitQueue (Some (last ?q))\<rparr>"
    using fresh q by (simp add: s'' suspend_def emit_def queueShard_proj del: last.simps)
  have 4: "tasks s' p = Some \<lparr>task_shard = task_shard t, task_pc = AwaitCooldown (now s + 5000)\<rparr>"
    by (simp add: s'' suspend_def)
  have 5: "log s' = log s @ [(now s, QueueShard (task_shard t)), (now s, Sleep (Num 5000))]"
    by (simp add: s'' suspend_def emit_def queueShard_obs)
  from 3 2 nr have 6: "step new (QueueGranted (next_pid s)) s' = None" by simp
  from 1 q 3 4 5 6 show ?thesis by simp
qed

theorem invalid_session_requeued_at_tail_witness:
  "run sample_shard sample_run (boot sample_env \<lparr>shards_option = Auto, totalShards = None\<rparr>)
     = Some invalid_session_example \<and>
   tasks invalid_session_example 0 = Some \<lparr>task_shard = Num 0, task_pc = AwaitConnect\<rparr> \<and>
   promises (queue (mgr invalid_session_example)) = [0, 1] \<and>
   step sample_shard (ConnectSettled 0 (Inr InvalidSession)) invalid_session_example
     = Some invalid_session_after \<and>
   promises (queue (mgr invalid_session_after)) = [0, 1, 2] \<and>
   tasks invalid_session_after 2 = Some \<lparr>task_shard = Num 0, task_pc = AwaitQueue (Some 1)\<rparr> \<and>
   step sample_shard (QueueGranted 2) invalid_session_after = None \<and>
   tasks invalid_session_after 0
     = Some \<lparr>task_shard = Num 0, task_pc = AwaitCooldown (now invalid_session_example + 5000)\<rparr>"
proof -
  let ?B = "boot sample_env \<lparr>shards_option = Auto, totalShards = None\<rparr>"
  have r: "run sample_shard sample_run ?B = Some invalid_session_example"
    by (simp add: invalid_session_example_def sample_run_def runtime_defs)
  have t: "tasks invalid_session_example 0 = Some \<lparr>task_shard = Num 0, task_pc = AwaitConnect\<rparr>"
    by (simp add: invalid_session_example_def sample_run_def runtime_defs)
  have q: "promises (queue (mgr invalid_session_example)) = [0, 1]"
    and n: "next_pid invalid_session_example = 2"
    by (simp_all add: invalid_session_example_def sample_run_def runtime_defs)
  have g: "step sample_shard (ConnectSettled 0 (Inr InvalidSession)) invalid_session_example
             = Some invalid_session_after"
    using t by (simp add: invalid_session_after_def)
  from invalid_session_requeued_at_tail [OF r t _ g] r t q n g
  show ?thesis by (simp del: step.simps)
qed

text \<open>
  C5, as stated, fails for an integer \<open>shards\<close> that is larger than any array: with
  \<open>shards = 4294967296\<close> and the largest array capacity the language allows, \<open>spawn\<close> throws
  the \<open>RangeError\<close> of \<open>push\<close> and hands no shard to \<open>queueShard\<close>.
\<close>

theorem spawn_shard_list_counterexample:
  "fst (spawn \<lparr>array_capacity = 4294967295, max_arguments = 65535\<rparr>
          (constructor sample_env \<lparr>shards_option = Count (Num 4294967296), totalShards = None\<rparr>)
          (Inr (sample_gateway (Num 1000) (Num 0)))) = Inl RangeError \<and>
   snd (snd (spawn \<lparr>array_capacity = 4294967295, max_arguments = 65535\<rparr>
          (constructor sample_env \<lparr>shards_option = Count (Num 4294967296), totalShards = None\<rparr>)
          (Inr (sample_gateway (Num 1000) (Num 0))))) = [ApiGet]"
proof -
  have "push_range \<lparr>array_capacity = 4294967295, max_arguments = 65535\<rparr>
          (Num 0) (Num 4294967296) [] = Inl RangeError"
    using push_range_int [of "\<lparr>array_capacity = 4294967295, max_arguments = 65535\<rparr>" 4294967296]
    by (simp add: array_limit_def)
  then show ?thesis
    by (simp add: spawn_def spawn_shards_def constructor_def sample_env_def)
qed

text \<open>
  C5, amended. With a token set and the gateway answering, \<open>spawn\<close> makes the shard list as
  follows. For \<open>shards = "auto"\<close> it sets \<open>totalShards\<close> to the count recommended by the gateway
  and, when that is an integer within the array capacity of the engine (at most 2 ^ 32 - 1),
  queues the ids \<open>0..total-1\<close>. For an integer \<open>shards = N\<close> it sets \<open>totalShards = N\<close> and, when
  \<open>N\<close> is within the array capacity, queues \<open>0..N-1\<close>. Beyond the capacity it throws a
  \<open>RangeError\<close> with \<open>totalShards\<close> already set, and queues nothing. For a list it throws when
  \<open>totalShards\<close> is not supplied (null, and also the falsy numbers 0 and \<open>NaN\<close>), and otherwise
  queues the given entries in their order, leaving out those that are not numbers or are
  \<open>NaN\<close>, when they are no more than the engine takes as arguments of one call.
\<close>

theorem spawn_shard_list:
  fixes n :: int
  assumes tok: "\<not> falsy_string (token m)"
  shows
   "spawn eng (m\<lparr>options := \<lparr>shards_option = Auto, totalShards = ts\<rparr>\<rparr>)
          (Inr (g\<lparr>gateway_shards := Num (of_int n)\<rparr>))
      = (if n \<le> int (array_limit eng)
         then (Inr (map (\<lambda>k. Num (of_int k)) [0..n - 1]),
               m\<lparr>options := \<lparr>shards_option = Auto, totalShards = Some (Num (of_int n))\<rparr>,
                 gatewayInfo := Some (g\<lparr>gateway_shards := Num (of_int n)\<rparr>)\<rparr>,
               ApiGet # map (\<lambda>k. QueueShard (Num (of_int k))) [0..n - 1])
         else (Inl RangeError,
               m\<lparr>options := \<lparr>shards_option = Auto, totalShards = Some (Num (of_int n))\<rparr>,
                 gatewayInfo := Some (g\<lparr>gateway_shards := Num (of_int n)\<rparr>)\<rparr>,
               [ApiGet])) \<and>
    spawn eng (m\<lparr>options := \<lparr>shards_option = Count (Num (of_int n)), totalShards = ts\<rparr>\<rparr>) (Inr g)
      = (if n \<le> int (array_limit eng)
         then (Inr (map (\<lambda>k. Num (of_int k)) [0..n - 1]),
               m\<lparr>options := \<lparr>shards_option = Count (Num (of_int n)),
                               totalShards = Some (Num (of_int n))\<rparr>,
                 gatewayInfo := Some g\<rparr>,
               ApiGet # map (\<lambda>k. QueueShard (Num (of_int k))) [0..n - 1])
         else (Inl RangeError,
               m\<lparr>options := \<lparr>shards_option = Count (Num (of_int n)),
                               totalShards = Some (Num (of_int n))\<rparr>,
                 gatewayInfo := Some g\<rparr>,
               [ApiGet])) \<and>
    spawn eng (m\<lparr>options := \<lparr>shards_option = Ids items, totalShards = ts\<rparr>\<rparr>) (Inr g)
      = (if ts = None \<or> ts = Some (Num 0) \<or> ts = Some NaN
         then (Inl TotalShardsRequired,
               m\<lparr>options := \<lparr>shards_option = Ids items, totalShards = ts\<rparr>,
                 gatewayInfo := Some g\<rparr>,
               [ApiGet])
         else if length [i. JNumber i \<leftarrow> items, i \<noteq> NaN] \<le> max_arguments eng \<and>
                 length [i. JNumber i \<leftarrow> items, i \<noteq> NaN] \<le> array_limit eng
         then (Inr [i. JNumber i \<leftarrow> items, i \<noteq> NaN],
               m\<lparr>options := \<lparr>shards_option = Ids items, totalShards = ts\<rparr>,
                 gatewayInfo := Some g\<rparr>,
               ApiGet # map QueueShard [i. JNumber i \<leftarrow> items, i \<noteq> NaN])
         else (Inl RangeError,
               m\<lparr>options := \<lparr>shards_option = Ids items, totalShards = ts\<rparr>,
                 gatewayInfo := Some g\<rparr>,
               [ApiGet]))"
proof -
  have f: "falsy_number ts = (ts = None \<or> ts = Some (Num 0) \<or> ts = Some NaN)"
    by (cases ts rule: falsy_number.cases) simp_all
  note r = push_range_int [of eng n]
  have a: "spawn_shards eng (m\<lparr>options := \<lparr>shards_option = Auto, totalShards = ts\<rparr>\<rparr>)
             (g\<lparr>gateway_shards := Num (of_int n)\<rparr>)
           = (if n \<le> int (array_limit eng) then Inr (map (\<lambda>k. Num (of_int k)) [0..n - 1])
              else Inl RangeError,
              m\<lparr>options := \<lparr>shards_option = Auto, totalShards = Some (Num (of_int n))\<rparr>,
                gatewayInfo := Some (g\<lparr>gateway_shards := Num (of_int n)\<rparr>)\<rparr>)"
    by (simp add: spawn_shards_def r)
  have b: "spawn_shards eng (m\<lparr>options := \<lparr>shards_option = Count (Num (of_int n)), totalShards = ts\<rparr>\<rparr>) g
           = (if n \<le> int (array_limit eng) then Inr (map (\<lambda>k. Num (of_int k)) [0..n - 1])
              else Inl RangeError,
              m\<lparr>options := \<lparr>shards_option = Count (Num (of_int n)),
                              totalShards = Some (Num (of_int n))\<rparr>,
                gatewayInfo := Some g\<rparr>)"
    by (simp add: spawn_shards_def r)
  have c: "spawn_shards eng (m\<lparr>options := \<lparr>shards_option = Ids items, totalShards = ts\<rparr>\<rparr>) g
           = (if falsy_number ts then Inl TotalShardsRequired
              else push_spread eng (numeric_entries items),
              m\<lparr>options := \<lparr>shards_option = Ids items, totalShards = ts\<rparr>,
                gatewayInfo := Some g\<rparr>)"
    by (simp add: spawn_shards_def)
  from tok show ?thesis
    unfolding spawn_def by (simp add: a b c f push_spread_def numeric_entries_eq comp_def)
qed

theorem spawn_shard_list_witness:
  "\<not> falsy_string (token (constructor sample_env \<lparr>shards_option = Auto, totalShards = None\<rparr>)) \<and>
   spawn sample_engine (constructor sample_env \<lparr>shards_option = Auto, totalShards = None\<rparr>)
         (Inr (sample_gateway (Num 1000) (Num 0)))
     = (Inr [Num 0, Num 1],
        (constructor sample_env \<lparr>shards_option = Auto, totalShards = Some (Num 2)\<rparr>)
          \<lparr>gatewayInfo := Some (sample_gateway (Num 1000) (Num 0))\<rparr>,
        [ApiGet, QueueShard (Num 0), QueueShard (Num 1)]) \<and>
   spawn sample_engine (constructor sample_env \<lparr>shards_option = Count (Num 2), totalShards = None\<rparr>)
         (Inr (sample_gateway (Num 1000) (Num 0)))
     = (Inr [Num 0, Num 1],
        (constructor sample_env \<lparr>shards_option = Count (Num 2), totalShards = Some (Num 2)\<rparr>)
          \<lparr>gatewayInfo := Some (sample_gateway (Num 1000) (Num 0))\<rparr>,
        [ApiGet, QueueShard (Num 0), QueueShard (Num 1)]) \<and>
   spawn sample_engine
         (constructor sample_env
            \<lparr>shards_option = Ids [JNumber (Num 3), JString ''4'', JNumber NaN, JNumber (Num 1)],
             totalShards = Some (Num 8)\<rparr>)
         (Inr (sample_gateway (Num 1000) (Num 0)))
     = (Inr [Num 3, Num 1],
        (constructor sample_env
           \<lparr>shards_option = Ids [JNumber (Num 3), JString ''4'', JNumber NaN, JNumber (Num 1)],
            totalShards = Some (Num 8)\<rparr>)
          \<lparr>gatewayInfo := Some (sample_gateway (Num 1000) (Num 0))\<rparr>,
        [ApiGet, QueueShard (Num 3), QueueShard (Num 1)])"
proof -
  let ?m = "constructor sample_env \<lparr>shards_option = Auto, totalShards = None\<rparr>"
  have tok: "\<not> falsy_string (token ?m)" by (simp add: constructor_def sample_env_def)
  have u: "[0..(1::int)] = [0, 1]" by (simp add: upto.simps)
  from spawn_shard_list [OF tok, where eng = sample_engine and ts = None
      and g = "sample_gateway (Num 1000) (Num 0)"
      and n = 2 and items = "[JNumber (Num 3), JString ''4'', JNumber NaN, JNumber (Num 1)]"]
    spawn_shard_list [OF tok, where eng = sample_engine and ts = "Some (Num 8)"
      and g = "sample_gateway (Num 1000) (Num 0)"
      and n = 2 and items = "[JNumber (Num 3), JString ''4'', JNumber NaN, JNumber (Num 1)]"]
  show ?thesis using tok
    by (simp add: constructor_def sample_env_def sample_gateway_def sample_engine_def
        array_limit_def u)
qed

text \<open>
  C6. The constructor takes the token from the environment variable \<open>DISCORD_TOKEN\<close> and
  the setter stores a token. When no token is set, \<open>spawn\<close> throws before any REST call and
  before any shard is queued, and leaves the manager as it was.
\<close>

theorem spawn_without_token:
  "token (constructor (env(''DISCORD_TOKEN'' \<mapsto> c # cs)) opts) = Some (c # cs) \<and>
   token (constructor (env(''DISCORD_TOKEN'' := None)) opts) = None \<and>
   token (set_token t m) = Some t \<and>
   (token m = None \<longrightarrow> spawn eng m rest = (Inl TokenRequired, m, [])) \<and>
   (token (mgr s) = None \<longrightarrow>
      step new SpawnCall s = Some (s\<lparr>rejected := rejected s @ [TokenRequired]\<rparr>))"
  by (simp add: constructor_def set_token_def spawn_def)

theorem spawn_without_token_witness:
  "token (mgr (boot Map.empty \<lparr>shards_option = Auto, totalShards = None\<rparr>)) = None \<and>
   spawn sample_engine (mgr (boot Map.empty \<lparr>shards_option = Auto, totalShards = None\<rparr>))
         (Inr (sample_gateway (Num 1000) (Num 0)))
     = (Inl TokenRequired, mgr (boot Map.empty \<lparr>shards_option = Auto, totalShards = None\<rparr>), []) \<and>
   step sample_shard SpawnCall (boot Map.empty \<lparr>shards_option = Auto, totalShards = None\<rparr>)
     = Some ((boot Map.empty \<lparr>shards_option = Auto, totalShards = None\<rparr>)
               \<lparr>rejected := [TokenRequired]\<rparr>)"
  using spawn_without_token [where env = Map.empty and c = "CHR ''x''" and cs = "[]"
      and opts = "\<lparr>shards_option = Auto, totalShards = None\<rparr>" and t = "[]"
      and m = "mgr (boot Map.empty \<lparr>shards_option = Auto, totalShards = None\<rparr>)"
      and eng = sample_engine
      and rest = "Inr (sample_gateway (Num 1000) (Num 0))"
      and s = "boot Map.empty \<lparr>shards_option = Auto, totalShards = None\<rparr>" and new = sample_shard]
  by (simp add: boot_def constructor_def)

text \<open>
  C7. The worker's handler turns a message of the manager into one call on the connection:
  \<open>Identify\<close> into \<open>newSession()\<close>, \<open>Destroy\<close> into \<open>destroy({ resetSession: true })\<close>,
  \<open>Reconnect\<close> into \<open>destroy()\<close>, \<open>PayloadDispatch\<close> into \<open>queueWSPayload(data)\<close>. On the
  connection of the specification the first proceeds with a new session, the second tears
  down and discards the session, the third tears down and keeps the session, and the last
  puts the payload at the tail of the send queue.
\<close>

theorem worker_message_actions:
  "on_message conn Identify c = newSession conn c \<and>
   on_message conn Destroy c = destroy conn (Some \<lparr>resetSession = True\<rparr>) c \<and>
   on_message conn Reconnect c = destroy conn None c \<and>
   on_message conn (PayloadDispatch d) c = queueWSPayload conn d c \<and>
   on_message conn FetchSessionData c = c \<and>
   session (on_message spec_connection Identify k) = None \<and>
   send_queue (on_message spec_connection Identify k) = IdentifyPayload # send_queue k \<and>
   session (on_message spec_connection Destroy k) = None \<and>
   \<not> transport_open (on_message spec_connection Destroy k) \<and>
   session (on_message spec_connection Reconnect k) = session k \<and>
   \<not> transport_open (on_message spec_connection Reconnect k) \<and>
   session (on_message spec_connection (PayloadDispatch d) k) = session k \<and>
   send_queue (on_message spec_connection (PayloadDispatch d) k) = send_queue k @ [SendPayload d]"
  by (simp add: spec_connection_def spec_newSession_def spec_destroy_def spec_queueWSPayload_def)

text \<open>
  C8, as stated, fails: the getter computes in doubles. For three shards with the ping
  samples 1, 1 and 2 it returns the double next to 4 / 3, which is not the arithmetic mean.
\<close>

theorem ping_is_mean_counterexample:
  "get_ping
     \<lparr>shards = [(Num 0, sample_shard (Num 0) None ''u''\<lparr>ping := Num 1\<rparr>),
                (Num 1, sample_shard (Num 1) None ''u''\<lparr>ping := Num 1\<rparr>),
                (Num 2, sample_shard (Num 2) None ''u''\<lparr>ping := Num 2\<rparr>)],
      options = \<lparr>shards_option = Auto, totalShards = None\<rparr>, token = None,
      queue = AsyncQueue_new, gatewayInfo = None\<rparr>
     = Num (6004799503160661 / 4503599627370496) \<and>
   arithmetic_mean [1, 1, 2] = 4 / 3 \<and>
   Num (6004799503160661 / 4503599627370496) \<noteq> Num (arithmetic_mean [1, 1, 2])"
  by (simp add: get_ping_def sample_shard_def arithmetic_mean_def to_double_4_3)

text \<open>
  C8, amended. For a manager with at least one shard whose ping samples are integers with
  absolute values summing to at most 2 ^ 53, the ping getter returns the double nearest to
  the arithmetic mean of the samples (their sum divided by the number of shards), a tie
  going to the even significand; when the number of shards divides the sum, that is the
  arithmetic mean itself.
\<close>

theorem ping_is_mean:
  assumes "shards m \<noteq> []"
    and "map (ping \<circ> snd) (shards m) = map (\<lambda>k. Num (of_int k)) ks"
    and "sum_list (map abs ks) \<le> 9007199254740992"
  shows "get_ping m = to_double (arithmetic_mean (map of_int ks)) \<and>
         (int (length ks) dvd sum_list ks \<longrightarrow>
            get_ping m = Num (arithmetic_mean (map of_int ks)))"
proof -
  from assms(2) have len: "length ks = length (shards m)"
    by (metis length_map)
  with assms(1) have n0: "length ks \<noteq> 0" by simp
  from assms(2) have "map ping (map snd (shards m)) = map (\<lambda>k. Num (of_int k)) ks" by simp
  from foldl_ping_int [OF this, of 0] assms(3)
  have "foldl (\<lambda>a b. js_add a (ping b)) (Num 0) (map snd (shards m)) = Num (of_int (sum_list ks))"
    by simp
  with n0 len have 1: "get_ping m = to_double (arithmetic_mean (map of_int ks))"
    by (simp add: get_ping_def arithmetic_mean_def sum_list_of_int)
  have 2: "get_ping m = Num (arithmetic_mean (map of_int ks))"
    if d: "int (length ks) dvd sum_list ks"
  proof -
    from d obtain z where z: "sum_list ks = int (length ks) * z" by (auto elim: dvdE)
    with n0 have mean: "arithmetic_mean (map of_int ks) = of_int z"
      by (simp add: arithmetic_mean_def sum_list_of_int)
    have "\<bar>sum_list ks\<bar> \<le> sum_list (map abs ks)" by (rule sum_list_abs)
    moreover have "\<bar>z\<bar> \<le> \<bar>sum_list ks\<bar>"
    proof -
      from n0 have "1 \<le> int (length ks)" by (cases ks) auto
      then have "1 * \<bar>z\<bar> \<le> int (length ks) * \<bar>z\<bar>" by (intro mult_right_mono) auto
      with z show ?thesis by (simp add: abs_mult)
    qed
    ultimately have "\<bar>z\<bar> \<le> 9007199254740992" using assms(3) by linarith
    with 1 mean show ?thesis by (simp add: to_double_int)
  qed
  from 1 2 show ?thesis by blast
qed

theorem ping_is_mean_witness:
  "get_ping
     \<lparr>shards = [(Num 0, sample_shard (Num 0) None ''u''\<lparr>ping := Num 40\<rparr>),
                (Num 1, sample_shard (Num 1) None ''u''\<lparr>ping := Num 56\<rparr>)],
      options = \<lparr>shards_option = Auto, totalShards = None\<rparr>, token = None,
      queue = AsyncQueue_new, gatewayInfo = None\<rparr>
   = Num 48 \<and> arithmetic_mean (map of_int [40, 56]) = 48"
  using ping_is_mean [of "\<lparr>shards = [(Num 0, sample_shard (Num 0) None ''u''\<lparr>ping := Num 40\<rparr>),
                (Num 1, sample_shard (Num 1) None ''u''\<lparr>ping := Num 56\<rparr>)],
      options = \<lparr>shards_option = Auto, totalShards = None\<rparr>, token = None,
      queue = AsyncQueue_new, gatewayInfo = None\<rparr>" "[40, 56]"]
  by (simp add: sample_shard_def arithmetic_mean_def)

text \<open>
  C9. For a manager without shards the ping getter divides 0 by 0 and returns \<open>NaN\<close>.
\<close>

theorem ping_of_no_shards: "shards m = [] \<Longrightarrow> get_ping m = NaN"
  by (simp add: get_ping_def)

theorem ping_of_no_shards_witness:
  "shards (constructor Map.empty \<lparr>shards_option = Auto, totalShards = None\<rparr>) = [] \<and>
   get_ping (constructor Map.empty \<lparr>shards_option = Auto, totalShards = None\<rparr>) = NaN"
  using ping_of_no_shards [of "constructor Map.empty \<lparr>shards_option = Auto, totalShards = None\<rparr>"]
  by (simp add: constructor_def)

text \<open>
  C10. When the turn of a call of \<open>queueShard\<close> comes and its shard is in the cache with status
  \<open>Connected\<close>, the call ends at once: no REST call, no connect, no sleep. The shard is stored
  again under its id, which leaves the cache as it was, and the call's own entry leaves the
  queue with its promise resolved.
\<close>

theorem connected_shard_returns_early:
  assumes reach: "run new evs (boot env opts) = Some s"
    and t: "tasks s p = Some t"
    and c: "Cache_get (shards (mgr s)) (task_shard t) = Some sh" and st: "status sh = Connected"
    and g: "step new (QueueGranted p) s = Some s'"
  shows "s' = s\<lparr>mgr := (mgr s)\<lparr>shards := Cache_set (task_shard t) sh (shards (mgr s)),
                                queue := (queue (mgr s))
                                  \<lparr>promises := tl (promises (queue (mgr s))),
                                   resolved := insert p (resolved (queue (mgr s)))\<rparr>\<rparr>,
               tasks := (tasks s)(p := None)\<rparr> \<and>
         Cache_set (task_shard t) sh (shards (mgr s)) = shards (mgr s) \<and>
         hd (promises (queue (mgr s))) = p \<and>
         log s' = log s \<and> now s' = now s \<and> gatewayInfo (mgr s') = gatewayInfo (mgr s)"
proof -
  from reach have inv: "queue_inv s" by (rule inv_run [OF inv_boot])
  from g t have u: "unblocked s t"
    by (auto simp: unblocked_def split: pc.splits option.splits if_splits)
  from unblocked_is_head [OF inv t u] obtain ps where q: "promises (queue (mgr s)) = p # ps"
    by blast
  from g t have s': "s' = queueShard_granted new p (task_shard t) s"
    by (auto split: pc.splits option.splits if_splits)
  from c have same: "Cache_set (task_shard t) sh (shards (mgr s)) = shards (mgr s)"
    by (simp add: Cache_get_def Cache_set_same)
  from c st q have 1: "queueShard_granted new p (task_shard t) s
      = s\<lparr>mgr := (mgr s)\<lparr>shards := Cache_set (task_shard t) sh (shards (mgr s)),
                                queue := (queue (mgr s))
                                  \<lparr>promises := tl (promises (queue (mgr s))),
                                   resolved := insert p (resolved (queue (mgr s)))\<rparr>\<rparr>,
               tasks := (tasks s)(p := None)\<rparr>"
    by (simp add: queueShard_granted_def getShard_def finally_shift_def AsyncQueue_shift_def)
  from s' 1 same q show ?thesis by simp
qed

theorem connected_shard_returns_early_witness:
  "run sample_shard
     [SpawnCall, SpawnFetched (Inr (sample_gateway (Num 1000) (Num 0))) sample_engine,
      QueueGranted 0, GatewayFetched 0 (Inr (sample_gateway (Num 1000) (Num 0))),
      ShardStatus (Num 0) Connected, ScheduleIdentify (Num 0),
      ConnectSettled 0 (Inr Ready), Tick 5000, TimerFired 0]
     (boot sample_env \<lparr>shards_option = Count (Num 1), totalShards = None\<rparr>)
     = Some connected_example \<and>
   tasks connected_example 1 = Some \<lparr>task_shard = Num 0, task_pc = AwaitQueue (Some 0)\<rparr> \<and>
   Cache_get (shards (mgr connected_example)) (Num 0)
     = Some ((sample_shard (Num 0) (Some (Num 1)) ''wss://gateway.discord.gg'')
               \<lparr>status := Connected\<rparr>) \<and>
   step sample_shard (QueueGranted 1) connected_example
     = Some (connected_example
               \<lparr>mgr := (mgr connected_example)\<lparr>queue := \<lparr>promises = [], resolved = {0, 1}\<rparr>\<rparr>,
                tasks := Map.empty\<rparr>) \<and>
   log (the (step sample_shard (QueueGranted 1) connected_example)) = log connected_example"
proof -
  let ?evs = "[SpawnCall, SpawnFetched (Inr (sample_gateway (Num 1000) (Num 0))) sample_engine,
      QueueGranted 0, GatewayFetched 0 (Inr (sample_gateway (Num 1000) (Num 0))),
      ShardStatus (Num 0) Connected, ScheduleIdentify (Num 0),
      ConnectSettled 0 (Inr Ready), Tick 5000, TimerFired 0]"
  let ?B = "boot sample_env \<lparr>shards_option = Count (Num 1), totalShards = None\<rparr>"
  let ?sh = "(sample_shard (Num 0) (Some (Num 1)) ''wss://gateway.discord.gg'')\<lparr>status := Connected\<rparr>"
  have r: "run sample_shard ?evs ?B = Some connected_example"
    by (simp add: connected_example_def runtime_defs)
  have t: "tasks connected_example 1 = Some \<lparr>task_shard = Num 0, task_pc = AwaitQueue (Some 0)\<rparr>"
    by (simp add: connected_example_def runtime_defs)
  have c: "Cache_get (shards (mgr connected_example))
             (task_shard \<lparr>task_shard = Num 0, task_pc = AwaitQueue (Some 0)\<rparr>) = Some ?sh"
    by (simp add: connected_example_def runtime_defs)
  have st: "status ?sh = Connected" by simp
  have q: "queue (mgr connected_example) = \<lparr>promises = [1], resolved = {0}\<rparr>"
    by (simp add: connected_example_def runtime_defs)
  have ts: "tasks connected_example = [1 \<mapsto> \<lparr>task_shard = Num 0, task_pc = AwaitQueue (Some 0)\<rparr>]"
    by (simp add: connected_example_def runtime_defs)
  have g: "step sample_shard (QueueGranted 1) connected_example
             = Some (the (step sample_shard (QueueGranted 1) connected_example))"
    using t q by simp
  from connected_shard_returns_early [OF r t c st g] r t c q ts g
  show ?thesis by (simp add: insert_commute)
qed

end
